theory Spec2Isabelle
  imports Complex_Main "HOL-Library.Word" "HOL-Library.Monad_Syntax"
begin

unbundle bit_operations_syntax

section \<open>Open-file-description lock stressor (stress-lockofd.c)\<close>

subsection \<open>Constants and the lock request arithmetic\<close>

text \<open>
  \<^verbatim>\<open>#define LOCK_FILE_SIZE (1024 * 1024)\<close> and \<^verbatim>\<open>#define LOCK_MAX (1024)\<close> are
  C \<^verbatim>\<open>int\<close> constants; \<^verbatim>\<open>off_t\<close> and \<^verbatim>\<open>uint64_t\<close> are 64-bit, \<^verbatim>\<open>int\<close> is 32-bit.
  Signed values are read with \<^const>\<open>sint\<close>.
\<close>

type_synonym off_t = "64 word"

definition LOCK_FILE_SIZE :: "32 word" where
  "LOCK_FILE_SIZE = 1024 * 1024"

definition LOCK_MAX :: "32 word" where
  "LOCK_MAX = 1024"

text \<open>
  \<^verbatim>\<open>len = (mwc16() + 1) & 0xfff;\<close>
  The \<^verbatim>\<open>uint16_t\<close> result of \<^verbatim>\<open>mwc16()\<close> is promoted to \<^verbatim>\<open>int\<close>, one is added, the
  sum is masked, and the \<^verbatim>\<open>int\<close> is converted to \<^verbatim>\<open>off_t\<close>.
\<close>

definition lock_len :: "16 word \<Rightarrow> off_t" where
  "lock_len v16 = scast (((ucast v16 :: 32 word) + 1) AND 0xfff)"

text \<open>
  \<^verbatim>\<open>offset = mwc64() % (LOCK_FILE_SIZE - len);\<close>
  The difference is computed in \<^verbatim>\<open>off_t\<close>, converted to \<^verbatim>\<open>uint64_t\<close> for the
  unsigned remainder, and the remainder is stored in an \<^verbatim>\<open>off_t\<close>.
\<close>

definition lock_offset :: "64 word \<Rightarrow> off_t \<Rightarrow> off_t" where
  "lock_offset v64 len = v64 mod (scast LOCK_FILE_SIZE - len)"

subsection \<open>Lock records, the tracking list and the memory they live in\<close>

text \<open>
  \<^verbatim>\<open>typedef struct lockofd_info { off_t offset; off_t len; struct lockofd_info *next; }\<close>
  A pointer is an address or \<^verbatim>\<open>NULL\<close> (\<open>None\<close>). The field \<^verbatim>\<open>next\<close> is written
  \<open>next'\<close> and the field \<^verbatim>\<open>length\<close> is written \<open>length'\<close>.
\<close>

type_synonym addr = nat

record lockofd_info =
  offset :: off_t
  len :: off_t
  next' :: "addr option"

text \<open>The parts of \<^verbatim>\<open>struct flock\<close> and of the \<^verbatim>\<open>fcntl\<close> interface the stressor uses.\<close>

datatype lock_type = F_RDLCK | F_WRLCK | F_UNLCK

datatype whence = SEEK_SET | SEEK_CUR | SEEK_END

datatype fcntl_cmd = F_OFD_GETLK | F_OFD_SETLK | F_OFD_SETLKW

record flock =
  l_type :: lock_type
  l_whence :: whence
  l_start :: off_t
  l_len :: off_t
  l_pid :: int

text \<open>What the process does that is visible outside it, in program order.\<close>

datatype event = Fcntl fcntl_cmd flock | Pr_fail_err string | Inc_counter

text \<open>
  The process state: the global \<^verbatim>\<open>lockofd_infos\<close> (fields \<open>head\<close>, \<open>tail\<close>, \<open>free\<close>,
  \<open>length'\<close>), the heap holding the records, and the events issued so far.
\<close>

record lockofd_state =
  head :: "addr option"
  tail :: "addr option"
  free :: "addr option"
  length' :: "64 word"
  heap :: "addr \<Rightarrow> lockofd_info option"
  events :: "event list"

text \<open>The zero-initialised static \<^verbatim>\<open>lockofd_infos\<close> of a process that holds no record.\<close>

definition lockofd_init :: lockofd_state where
  "lockofd_init =
     \<lparr>head = None, tail = None, free = None, length' = 0, heap = (\<lambda>_. None), events = []\<rparr>"

text \<open>
  Every operation returns an \<open>option\<close>: \<open>None\<close> stands for a read or write through
  \<^verbatim>\<open>NULL\<close> or through an address that holds no record, where C has no defined behaviour.
\<close>

definition store_next :: "addr \<Rightarrow> addr option \<Rightarrow> lockofd_state \<Rightarrow> lockofd_state option" where
  "store_next p v s =
     (case heap s p of
        None \<Rightarrow> None
      | Some n \<Rightarrow> Some (s\<lparr>heap := (heap s)(p \<mapsto> n\<lparr>next' := v\<rparr>)\<rparr>))"

definition log_event :: "event \<Rightarrow> lockofd_state \<Rightarrow> lockofd_state" where
  "log_event ev s = s\<lparr>events := events s @ [ev]\<rparr>"

text \<open>
  \<^verbatim>\<open>stress_lockofd_info_new()\<close>: the argument is what \<^verbatim>\<open>calloc\<close> returns if it is
  called (\<open>None\<close> for \<^verbatim>\<open>NULL\<close>); a fresh record is zero-filled. The result is the returned
  pointer and the new state.
\<close>

definition stress_lockofd_info_new ::
  "addr option \<Rightarrow> lockofd_state \<Rightarrow> (addr option \<times> lockofd_state) option" where
  "stress_lockofd_info_new calloc_result s =
     do {
       (new, s1) \<leftarrow>
         (case free s of
            Some f \<Rightarrow>
              do {
                n \<leftarrow> heap s f;
                Some (Some f, s\<lparr>free := next' n, heap := (heap s)(f \<mapsto> n\<lparr>next' := None\<rparr>)\<rparr>)
              }
          | None \<Rightarrow>
              (case calloc_result of
                 None \<Rightarrow> Some (None, s)
               | Some c \<Rightarrow>
                   Some (Some c,
                     s\<lparr>heap := (heap s)(c \<mapsto> \<lparr>offset = 0, len = 0, next' = None\<rparr>)\<rparr>)));
       case new of
         None \<Rightarrow> Some (None, s1)
       | Some p \<Rightarrow>
           do {
             s2 \<leftarrow>
               (if head s1 \<noteq> None then do { t \<leftarrow> tail s1; store_next t (Some p) s1 }
                else Some (s1\<lparr>head := Some p\<rparr>));
             Some (Some p, s2\<lparr>tail := Some p, length' := length' s2 + 1\<rparr>)
           }
     }"

text \<open>\<^verbatim>\<open>stress_lockofd_info_head_remove()\<close>\<close>

definition stress_lockofd_info_head_remove :: "lockofd_state \<Rightarrow> lockofd_state option" where
  "stress_lockofd_info_head_remove s =
     (case head s of
        None \<Rightarrow> Some s
      | Some h \<Rightarrow>
          do {
            s1 \<leftarrow>
              (if tail s = head s then Some (s\<lparr>tail := None, head := None\<rparr>)
               else do { n \<leftarrow> heap s h; Some (s\<lparr>head := next' n\<rparr>) });
            s2 \<leftarrow> store_next h (free s1) s1;
            Some (s2\<lparr>free := Some h, length' := length' s2 - 1\<rparr>)
          })"

text \<open>
  \<^verbatim>\<open>stress_lockofd_unlock()\<close>: the first argument is what
  \<^verbatim>\<open>fcntl(fd, F_OFD_SETLK, &f)\<close> returns if it is called. The result is the returned
  \<^verbatim>\<open>int\<close> and the new state.
\<close>

definition stress_lockofd_unlock :: "int \<Rightarrow> lockofd_state \<Rightarrow> (int \<times> lockofd_state) option" where
  "stress_lockofd_unlock fcntl_result s =
     (case head s of
        None \<Rightarrow> Some (0, s)
      | Some h \<Rightarrow>
          do {
            n \<leftarrow> heap s h;
            let f = \<lparr>l_type = F_UNLCK, l_whence = SEEK_SET, l_start = offset n,
                     l_len = len n, l_pid = 0\<rparr>;
            s1 \<leftarrow> stress_lockofd_info_head_remove s;
            let s2 = log_event (Fcntl F_OFD_SETLK f) s1;
            if fcntl_result < 0 then Some (- 1, log_event (Pr_fail_err ''F_SETLK'') s2)
            else Some (0, s2)
          })"

subsection \<open>The contention loop\<close>

text \<open>
  What the environment supplies to one pass through the body of the \<^verbatim>\<open>do ... while\<close>
  loop of \<^verbatim>\<open>stress_lockofd_contention()\<close>: the results of the calls the body may make,
  and of \<^verbatim>\<open>keep_stressing()\<close> in the loop condition.
\<close>

record iter_env =
  unlock_result :: int
  mwc16 :: "16 word"
  mwc64 :: "64 word"
  getlk_result :: int
  calloc_result :: "addr option"
  keep_stressing :: bool

text \<open>A pass through the body either returns from the function or reaches the loop condition.\<close>

datatype ctl = Return int lockofd_state | Reach_condition lockofd_state

text \<open>
  Lines 188 to 194 of the body: take a record from \<^verbatim>\<open>stress_lockofd_info_new()\<close> and,
  unless it is \<^verbatim>\<open>NULL\<close>, store the offset and the length in it.
\<close>

definition record_lock ::
  "addr option \<Rightarrow> off_t \<Rightarrow> off_t \<Rightarrow> lockofd_state \<Rightarrow> (addr option \<times> lockofd_state) option" where
  "record_lock calloc_res off lng s =
     do {
       (new, s1) \<leftarrow> stress_lockofd_info_new calloc_res s;
       case new of
         None \<Rightarrow> Some (None, log_event (Pr_fail_err ''calloc'') s1)
       | Some p \<Rightarrow>
           do {
             n \<leftarrow> heap s1 p;
             Some (Some p, s1\<lparr>heap := (heap s1)(p \<mapsto> n\<lparr>offset := off, len := lng\<rparr>)\<rparr>)
           }
     }"

text \<open>
  The body of the loop in two parts. Lines 169 to 171: when \<^verbatim>\<open>length >= LOCK_MAX\<close>
  (the \<^verbatim>\<open>int\<close> constant converted to \<^verbatim>\<open>uint64_t\<close>) the oldest lock is released.
\<close>

definition evict_if_full :: "iter_env \<Rightarrow> lockofd_state \<Rightarrow> (int \<times> lockofd_state) option" where
  "evict_if_full e s =
     (if scast LOCK_MAX \<le> length' s then stress_lockofd_unlock (unlock_result e) s
      else Some (0, s))"

text \<open>
  Lines 173 to 196: draw the range, call \<^verbatim>\<open>fcntl(fd, F_OFD_GETLK, &f)\<close>, and record the
  range unless the call returned a negative value.
\<close>

definition try_lock :: "iter_env \<Rightarrow> lockofd_state \<Rightarrow> ctl option" where
  "try_lock e s1 =
     do {
       let lng = lock_len (mwc16 e);
       let off = lock_offset (mwc64 e) lng;
       let f = \<lparr>l_type = F_WRLCK, l_whence = SEEK_SET, l_start = off, l_len = lng,
                l_pid = 0\<rparr>;
       let s2 = log_event (Fcntl F_OFD_GETLK f) s1;
       if getlk_result e < 0 then Some (Reach_condition s2)
       else
         do {
           (new, s3) \<leftarrow> record_lock (calloc_result e) off lng s2;
           case new of
             None \<Rightarrow> Some (Return (- 1) s3)
           | Some p \<Rightarrow> Some (Reach_condition (log_event Inc_counter s3))
         }
     }"

definition contention_body :: "iter_env \<Rightarrow> lockofd_state \<Rightarrow> ctl option" where
  "contention_body e s =
     do {
       (rc, s1) \<leftarrow> evict_if_full e s;
       if rc < 0 then Some (Return (- 1) s1) else try_lock e s1
     }"

text \<open>
  \<^verbatim>\<open>stress_lockofd_contention()\<close> on a script of passes. The result is \<open>Some r\<close> with
  the state when the function returns \<open>r\<close>, and \<open>None\<close> with the state reached when
  the script ends while the loop is still running.
\<close>

fun stress_lockofd_contention ::
  "iter_env list \<Rightarrow> lockofd_state \<Rightarrow> (int option \<times> lockofd_state) option" where
  "stress_lockofd_contention [] s = Some (None, s)"
| "stress_lockofd_contention (e # es) s =
     (case contention_body e s of
        None \<Rightarrow> None
      | Some (Return r s') \<Rightarrow> Some (Some r, s')
      | Some (Reach_condition s') \<Rightarrow>
          if keep_stressing e then stress_lockofd_contention es s' else Some (Some 0, s'))"

subsection \<open>What the tracking list holds\<close>

text \<open>
  \<open>islist h p as\<close>: following \<open>next'\<close> from \<open>p\<close> visits exactly the addresses \<open>as\<close>
  and ends in \<^verbatim>\<open>NULL\<close>.
\<close>

fun islist :: "(addr \<Rightarrow> lockofd_info option) \<Rightarrow> addr option \<Rightarrow> addr list \<Rightarrow> bool" where
  "islist h p [] = (p = None)"
| "islist h p (a # as) =
     (p = Some a \<and> (case h a of None \<Rightarrow> False | Some n \<Rightarrow> islist h (next' n) as))"

definition record_at :: "(addr \<Rightarrow> lockofd_info option) \<Rightarrow> addr \<Rightarrow> (off_t \<times> off_t) option" where
  "record_at h a = map_option (\<lambda>n. (offset n, len n)) (h a)"

text \<open>
  The representation invariant: \<open>as\<close> are the records of the tracking list from the head,
  \<open>fs\<close> those of the free pool, no record is in both or twice in one, \<open>tail\<close> is the last
  record of the list and \<open>length'\<close> counts the list.
\<close>

definition lockofd_inv :: "lockofd_state \<Rightarrow> addr list \<Rightarrow> addr list \<Rightarrow> bool" where
  "lockofd_inv s as fs \<longleftrightarrow>
     islist (heap s) (head s) as \<and> islist (heap s) (free s) fs \<and> distinct (as @ fs) \<and>
     (if as = [] then True else tail s = Some (last as)) \<and>
     length' s = of_nat (length as)"

text \<open>\<open>lockofd_rep s as fs rs\<close>: moreover the records of the list hold the pairs \<open>rs\<close>.\<close>

definition lockofd_rep ::
  "lockofd_state \<Rightarrow> addr list \<Rightarrow> addr list \<Rightarrow> (off_t \<times> off_t) list \<Rightarrow> bool" where
  "lockofd_rep s as fs rs \<longleftrightarrow>
     lockofd_inv s as fs \<and> map (record_at (heap s)) as = map Some rs"

text \<open>
  The queue read off a state: the (offset, length) pairs met on following \<open>length'\<close>
  links from \<open>head\<close>; \<open>None\<close> if the walk does not end in \<^verbatim>\<open>NULL\<close> there.
\<close>

fun walk ::
  "nat \<Rightarrow> (addr \<Rightarrow> lockofd_info option) \<Rightarrow> addr option \<Rightarrow> (off_t \<times> off_t) list option" where
  "walk n h None = Some []"
| "walk 0 h (Some a) = None"
| "walk (Suc n) h (Some a) =
     (case h a of
        None \<Rightarrow> None
      | Some nd \<Rightarrow> map_option ((#) (offset nd, len nd)) (walk n h (next' nd)))"

definition queue_of :: "lockofd_state \<Rightarrow> (off_t \<times> off_t) list option" where
  "queue_of s = walk (unat (length' s)) (heap s) (head s)"

definition head_record :: "lockofd_state \<Rightarrow> (off_t \<times> off_t) option" where
  "head_record s = (case head s of None \<Rightarrow> None | Some h \<Rightarrow> record_at (heap s) h)"

text \<open>\<open>pushes\<close> records locks one after the other, \<open>pops\<close> removes \<open>k\<close> heads.\<close>

fun pushes :: "(addr option \<times> off_t \<times> off_t) list \<Rightarrow> lockofd_state \<Rightarrow> lockofd_state option" where
  "pushes [] s = Some s"
| "pushes ((c, off, lng) # rs) s =
     (case record_lock c off lng s of
        Some (Some p, s') \<Rightarrow> pushes rs s'
      | _ \<Rightarrow> None)"

fun pops :: "nat \<Rightarrow> lockofd_state \<Rightarrow> lockofd_state option" where
  "pops 0 s = Some s"
| "pops (Suc k) s = stress_lockofd_info_head_remove s \<bind> pops k"

text \<open>
  The addresses \<^verbatim>\<open>calloc\<close> hands out along a script, and the part of a state that is
  the tracking list and the free pool.
\<close>

fun calloc_addrs :: "iter_env list \<Rightarrow> addr list" where
  "calloc_addrs [] = []"
| "calloc_addrs (e # es) =
     (case calloc_result e of None \<Rightarrow> calloc_addrs es | Some a \<Rightarrow> a # calloc_addrs es)"

definition list_state ::
  "lockofd_state \<Rightarrow>
   addr option \<times> addr option \<times> addr option \<times> 64 word \<times> (addr \<Rightarrow> lockofd_info option)" where
  "list_state s = (head s, tail s, free s, length' s, heap s)"

fun state_of :: "ctl \<Rightarrow> lockofd_state" where
  "state_of (Return r s) = s"
| "state_of (Reach_condition s) = s"

text \<open>The pool a new record comes from: the free pool's first record, else \<^verbatim>\<open>calloc\<close>.\<close>

definition new_addr :: "addr option \<Rightarrow> addr list \<Rightarrow> addr option" where
  "new_addr c fs = (case fs of [] \<Rightarrow> c | f # _ \<Rightarrow> Some f)"

text \<open>
  Concrete passes used to run the model: \<open>fill_env i\<close> is a pass in which the
  \<^verbatim>\<open>F_OFD_GETLK\<close> call returns 0 and \<^verbatim>\<open>calloc\<close> returns the address \<open>i\<close>;
  \<open>enomem_env\<close> is a pass in which the call returns 0 and \<^verbatim>\<open>calloc\<close> returns \<^verbatim>\<open>NULL\<close>.
\<close>

definition fill_env :: "nat \<Rightarrow> iter_env" where
  "fill_env i =
     \<lparr>unlock_result = 0, mwc16 = 7, mwc64 = 100, getlk_result = 0, calloc_result = Some i,
      keep_stressing = True\<rparr>"

definition enomem_env :: iter_env where
  "enomem_env =
     \<lparr>unlock_result = 0, mwc16 = 7, mwc64 = 100, getlk_result = 0, calloc_result = None,
      keep_stressing = True\<rparr>"

definition fill_rec :: "off_t \<times> off_t" where
  "fill_rec =
     (lock_offset (mwc64 (fill_env 0)) (lock_len (mwc16 (fill_env 0))),
      lock_len (mwc16 (fill_env 0)))"

section \<open>Membarrier stressor (stress-membarrier.c)\<close>

subsection \<open>Constants, metrics and events\<close>

text \<open>
  The values the source gives in its fallback \<^verbatim>\<open>enum membarrier_cmd\<close> and
  \<^verbatim>\<open>enum membarrier_cmd_flag\<close>; \<^verbatim>\<open>int\<close> and \<^verbatim>\<open>unsigned int\<close> are 32-bit words, signed
  values are read with \<^const>\<open>sint\<close>.
\<close>

definition MEMBARRIER_CMD_QUERY :: "32 word" where
  "MEMBARRIER_CMD_QUERY = push_bit 0 0"

definition MEMBARRIER_CMD_GLOBAL :: "32 word" where
  "MEMBARRIER_CMD_GLOBAL = push_bit 0 1"

definition MEMBARRIER_CMD_SHARED :: "32 word" where
  "MEMBARRIER_CMD_SHARED = MEMBARRIER_CMD_GLOBAL"

definition MEMBARRIER_CMD_FLAG_CPU :: "32 word" where
  "MEMBARRIER_CMD_FLAG_CPU = push_bit 0 1"

definition INT_MAX :: "32 word" where
  "INT_MAX = 0x7fffffff"

definition MAX_MEMBARRIER_THREADS :: nat where
  "MAX_MEMBARRIER_THREADS = 4"

text \<open>The Linux value of \<^verbatim>\<open>ENOSYS\<close>, from the system's \<^verbatim>\<open>errno.h\<close>.\<close>

definition ENOSYS :: int where
  "ENOSYS = 38"

text \<open>
  Modelled from the spec: the three exit statuses, of which \<^verbatim>\<open>EXIT_NOT_IMPLEMENTED\<close> is
  defined in \<^verbatim>\<open>stress-ng.h\<close>, which is not among the sources. The spec calls them the
  worker exit classes success, failure and not-implemented/skip, the last one "a distinct
  status".
\<close>

datatype exit_status = EXIT_SUCCESS | EXIT_FAILURE | EXIT_NOT_IMPLEMENTED

text \<open>
  \<^verbatim>\<open>membarrier_info_t\<close> without the thread handle. The two \<^verbatim>\<open>double\<close> fields are modelled
  as real numbers: additions and the division are exact, rounding is not modelled (adding
  \<^verbatim>\<open>1.0\<close> to a \<^verbatim>\<open>double\<close> is exact below \<open>2^53\<close>).
\<close>

record membarrier_info =
  pthread_ret :: int
  duration :: real
  count :: real

text \<open>What a thread does that is visible outside it, in program order.\<close>

datatype mb_event =
    Membarrier "32 word" "32 word" "32 word"
  | Pthread_create nat
  | Pthread_join nat
  | Mb_inc_counter
  | Stress_metrics_set real
  | Pr_fail
  | Pr_inf

text \<open>An exercising thread: its metrics slot and the events it has issued.\<close>

record exerciser =
  info :: membarrier_info
  trace :: "mb_event list"

text \<open>
  \<^verbatim>\<open>shim_membarrier(cmd, flags, cpu_id)\<close> as an event; where the caller looks at the
  result, the result is an input of the caller.
\<close>

definition shim_membarrier :: "32 word \<Rightarrow> 32 word \<Rightarrow> 32 word \<Rightarrow> exerciser \<Rightarrow> exerciser" where
  "shim_membarrier cmd flags cpu_id x = x\<lparr>trace := trace x @ [Membarrier cmd flags cpu_id]\<rparr>"

text \<open>\<^verbatim>\<open>info->count += 1.0;\<close>\<close>

definition count_up :: "exerciser \<Rightarrow> exerciser" where
  "count_up x = x\<lparr>info := (info x)\<lparr>count := count (info x) + 1\<rparr>\<rparr>"

subsection \<open>One exercise cycle\<close>

text \<open>
  The three loops \<^verbatim>\<open>for (i = 1; i; i <<= 1)\<close> of \<^verbatim>\<open>stress_membarrier_exercise()\<close>, each
  started at \<open>i = 1\<close>.

  In the first loop the lines 93 to 97,
  \<^verbatim>\<open>#if defined(MEMBARRIER_CMD_FLAG_CPU)\<close> ...
  \<^verbatim>\<open>shim_membarrier((int)i, MEMBARRIER_CMD_FLAG_CPU, 0); info->count += 1.0;\<close> ...
  \<^verbatim>\<open>#endif\<close>, are not compiled: \<^verbatim>\<open>MEMBARRIER_CMD_FLAG_CPU\<close> is an enumerator (lines 67
  to 69, and likewise in \<^verbatim>\<open><linux/membarrier.h>\<close>), not a preprocessor macro, so
  \<^verbatim>\<open>defined(MEMBARRIER_CMD_FLAG_CPU)\<close> is false. The loop as compiled makes one call and
  one increment for each set bit.
\<close>

function legal_sweep :: "32 word \<Rightarrow> 32 word \<Rightarrow> exerciser \<Rightarrow> exerciser" where
  "legal_sweep msk i x =
     (if i = 0 then x
      else legal_sweep msk (push_bit 1 i)
             (if i AND msk \<noteq> 0 then count_up (shim_membarrier i 0 0 x) else x))"
  by pat_completeness auto
termination
proof (relation "measure (\<lambda>(m, i, x). LEAST n. push_bit n i = 0)")
  show "wf (measure (\<lambda>(m, i :: 32 word, x). LEAST n. push_bit n i = 0))" by simp
next
  fix msk i :: "32 word" and x :: exerciser
  assume nz: "i \<noteq> 0"
  let ?n = "LEAST n. push_bit n i = 0"
  have "push_bit 32 i = 0" by simp
  then have z: "push_bit ?n i = 0" by (rule LeastI)
  with nz have "?n \<noteq> 0" by (cases "?n = 0") simp_all
  then obtain k where k: "?n = Suc k" by (cases ?n) simp_all
  with z have "push_bit k (push_bit 1 i) = 0" by (simp add: push_bit_double)
  then have "(LEAST n. push_bit n (push_bit 1 i) = 0) \<le> k" by (rule Least_le)
  with k show
    "((msk, push_bit 1 i, if i AND msk \<noteq> 0 then count_up (shim_membarrier i 0 0 x) else x),
       msk, i, x)
     \<in> measure (\<lambda>(m, i, x). LEAST n. push_bit n i = 0)"
    by simp
qed

function illegal_args_sweep :: "32 word \<Rightarrow> 32 word \<Rightarrow> exerciser \<Rightarrow> exerciser" where
  "illegal_args_sweep msk i x =
     (if i = 0 then x
      else illegal_args_sweep msk (push_bit 1 i)
             (if i AND msk \<noteq> 0 then
                shim_membarrier i 0 INT_MAX (shim_membarrier i (NOT 0) 0 x)
              else x))"
  by pat_completeness auto
termination
proof (relation "measure (\<lambda>(m, i, x). LEAST n. push_bit n i = 0)")
  show "wf (measure (\<lambda>(m, i :: 32 word, x). LEAST n. push_bit n i = 0))" by simp
next
  fix msk i :: "32 word" and x :: exerciser
  assume nz: "i \<noteq> 0"
  let ?n = "LEAST n. push_bit n i = 0"
  have "push_bit 32 i = 0" by simp
  then have z: "push_bit ?n i = 0" by (rule LeastI)
  with nz have "?n \<noteq> 0" by (cases "?n = 0") simp_all
  then obtain k where k: "?n = Suc k" by (cases ?n) simp_all
  with z have "push_bit k (push_bit 1 i) = 0" by (simp add: push_bit_double)
  then have "(LEAST n. push_bit n (push_bit 1 i) = 0) \<le> k" by (rule Least_le)
  with k show
    "((msk, push_bit 1 i,
         if i AND msk \<noteq> 0
         then shim_membarrier i 0 INT_MAX (shim_membarrier i (NOT 0) 0 x)
         else x),
       msk, i, x)
     \<in> measure (\<lambda>(m, i, x). LEAST n. push_bit n i = 0)"
    by simp
qed

declare legal_sweep.simps [simp del]

declare illegal_args_sweep.simps [simp del]

text \<open>The third loop leaves at its \<^verbatim>\<open>break\<close> after the first call.\<close>

function illegal_cmd_probe :: "32 word \<Rightarrow> 32 word \<Rightarrow> exerciser \<Rightarrow> exerciser" where
  "illegal_cmd_probe msk i x =
     (if i = 0 then x
      else if i AND msk = 0 then shim_membarrier i 0 0 x
      else illegal_cmd_probe msk (push_bit 1 i) x)"
  by pat_completeness auto
termination
proof (relation "measure (\<lambda>(m, i, x). LEAST n. push_bit n i = 0)")
  show "wf (measure (\<lambda>(m, i :: 32 word, x). LEAST n. push_bit n i = 0))" by simp
next
  fix msk i :: "32 word" and x :: exerciser
  assume nz: "i \<noteq> 0"
  let ?n = "LEAST n. push_bit n i = 0"
  have "push_bit 32 i = 0" by simp
  then have z: "push_bit ?n i = 0" by (rule LeastI)
  with nz have "?n \<noteq> 0" by (cases "?n = 0") simp_all
  then obtain k where k: "?n = Suc k" by (cases ?n) simp_all
  with z have "push_bit k (push_bit 1 i) = 0" by (simp add: push_bit_double)
  then have "(LEAST n. push_bit n (push_bit 1 i) = 0) \<le> k" by (rule Least_le)
  with k show
    "((msk, push_bit 1 i, x), msk, i, x) \<in> measure (\<lambda>(m, i, x). LEAST n. push_bit n i = 0)"
    by simp
qed

declare illegal_cmd_probe.simps [simp del]

text \<open>
  What the environment supplies to one cycle: the result of the capability query, the two
  readings of \<^verbatim>\<open>stress_time_now()\<close>, and, for the coordinator, the result of
  \<^verbatim>\<open>keep_stressing(args)\<close> after the cycle.
\<close>

record cycle_env =
  query_result :: "32 word"
  time_start :: real
  time_end :: real
  keep_going :: bool

text \<open>
  \<^verbatim>\<open>stress_membarrier_exercise()\<close>: the returned \<^verbatim>\<open>int\<close> and the thread afterwards. The
  text of log messages is not modelled.
\<close>

definition stress_membarrier_exercise :: "cycle_env \<Rightarrow> exerciser \<Rightarrow> int \<times> exerciser" where
  "stress_membarrier_exercise e x =
     (let x0 = shim_membarrier MEMBARRIER_CMD_QUERY 0 0 x;
          ret = query_result e
      in if sint ret < 0 then (- 1, x0\<lparr>trace := trace x0 @ [Pr_fail]\<rparr>)
         else
           let msk = ret;
               x1 = legal_sweep msk 1 x0;
               x2 = x1\<lparr>info := (info x1)
                      \<lparr>duration := duration (info x1) + (time_end e - time_start e)\<rparr>\<rparr>;
               x3 = illegal_args_sweep msk 1 x2;
               x4 = illegal_cmd_probe msk 1 x3
           in (0, x4))"

subsection \<open>The stressor\<close>

text \<open>
  The coordinator's loop \<^verbatim>\<open>do { ... } while (keep_stressing(args))\<close> on a script of
  cycles; \<open>None\<close> when the script ends while the loop is still running.
\<close>

fun coordinator_loop :: "cycle_env list \<Rightarrow> exerciser \<Rightarrow> exerciser option" where
  "coordinator_loop [] x = None"
| "coordinator_loop (e # es) x =
     (let (rc, x1) = stress_membarrier_exercise e x;
          x2 = (if rc < 0 then x1\<lparr>trace := trace x1 @ [Pr_fail]\<rparr> else x1);
          x3 = x2\<lparr>trace := trace x2 @ [Mb_inc_counter]\<rparr>
      in if keep_going e then coordinator_loop es x3 else Some x3)"

text \<open>
  Lines 205 to 209: the sums over the \<^verbatim>\<open>MAX_MEMBARRIER_THREADS + 1\<close> slots of the array
  \<^verbatim>\<open>info\<close>, and the rate.
\<close>

definition aggregate :: "membarrier_info list \<Rightarrow> real \<times> real" where
  "aggregate infos =
     fold (\<lambda>i (d, c). (d + duration (infos ! i), c + count (infos ! i)))
       [0..<MAX_MEMBARRIER_THREADS + 1] (0, 0)"

definition membarrier_rate :: "membarrier_info list \<Rightarrow> real" where
  "membarrier_rate infos = (let (d, c) = aggregate infos in if d > 0 then c / d else 0)"

text \<open>
  What the environment supplies to \<^verbatim>\<open>stress_membarrier()\<close>: the result and the
  \<^verbatim>\<open>errno\<close> of the first capability query, \<^verbatim>\<open>args->instance\<close>, for each pool thread
  the result of \<^verbatim>\<open>pthread_create\<close> and the duration and count found in its slot when
  the sums are taken (the pool threads run concurrently; what they have written by then is
  an input), and the coordinator's cycles.
\<close>

record membarrier_env =
  first_query :: "32 word"
  first_errno :: int
  instance_no :: nat
  create_result :: "nat \<Rightarrow> int"
  pool_metrics :: "nat \<Rightarrow> real \<times> real"
  cycles :: "cycle_env list"

text \<open>The slot of pool thread \<open>i\<close> when the sums are taken; a thread that was not created
  leaves the zeros of the initialisation.\<close>

definition pool_slot :: "membarrier_env \<Rightarrow> nat \<Rightarrow> membarrier_info" where
  "pool_slot env i =
     (if create_result env i = 0
      then \<lparr>pthread_ret = 0, duration = fst (pool_metrics env i),
            count = snd (pool_metrics env i)\<rparr>
      else \<lparr>pthread_ret = create_result env i, duration = 0, count = 0\<rparr>)"

text \<open>
  \<^verbatim>\<open>stress_membarrier()\<close>: the returned status (\<open>None\<close> while the coordinator's loop is
  still running at the end of the script) and the events of the coordinating thread.
\<close>

definition stress_membarrier ::
  "membarrier_env \<Rightarrow> exit_status option \<times> mb_event list" where
  "stress_membarrier env =
     (let ret = first_query env;
          t0 = [Membarrier MEMBARRIER_CMD_QUERY 0 0]
      in if sint ret < 0 then
           (if first_errno env = ENOSYS
            then (Some EXIT_NOT_IMPLEMENTED, t0 @ (if instance_no env = 0 then [Pr_inf] else []))
            else (Some EXIT_FAILURE, t0 @ [Pr_fail]))
         else if ret AND MEMBARRIER_CMD_SHARED = 0 then (Some EXIT_NOT_IMPLEMENTED, t0 @ [Pr_inf])
         else
           let t1 = t0 @ map Pthread_create [0..<MAX_MEMBARRIER_THREADS];
               own = \<lparr>info = \<lparr>pthread_ret = - 1, duration = 0, count = 0\<rparr>, trace = t1\<rparr>
           in case coordinator_loop (cycles env) own of
                None \<Rightarrow> (None, t1)
              | Some x \<Rightarrow>
                  let infos = map (pool_slot env) [0..<MAX_MEMBARRIER_THREADS] @ [info x];
                      rate = membarrier_rate infos;
                      joins = map Pthread_join
                                (filter (\<lambda>i. create_result env i = 0)
                                   [0..<MAX_MEMBARRIER_THREADS])
                  in (Some EXIT_SUCCESS, trace x @ [Stress_metrics_set rate] @ joins))"

subsection \<open>What a cycle is expected to do\<close>

text \<open>
  The number of set bits of a mask, the counted calls for a mask in increasing bit order,
  and the lowest bit of the word that is not set.
\<close>

definition popcount :: "32 word \<Rightarrow> nat" where
  "popcount m = length (filter (bit m) [0..<32])"

definition legal_calls :: "32 word \<Rightarrow> mb_event list" where
  "legal_calls m = map (\<lambda>b. Membarrier (push_bit b 1) 0 0) (filter (bit m) [0..<32])"

definition illegal_arg_calls :: "32 word \<Rightarrow> mb_event list" where
  "illegal_arg_calls m =
     concat (map (\<lambda>b. [Membarrier (push_bit b 1) (NOT 0) 0, Membarrier (push_bit b 1) 0 INT_MAX])
               (filter (bit m) [0..<32]))"

definition lowest_unset :: "32 word \<Rightarrow> nat option" where
  "lowest_unset m = find (\<lambda>b. \<not> bit m b) [0..<32]"

text \<open>
  The coordinating thread when it enters its loop: its slot as initialised, the first query
  and the four \<^verbatim>\<open>pthread_create\<close> calls behind it.
\<close>

definition own_start :: exerciser where
  "own_start =
     \<lparr>info = \<lparr>pthread_ret = - 1, duration = 0, count = 0\<rparr>,
      trace = Membarrier MEMBARRIER_CMD_QUERY 0 0 # map Pthread_create [0..<MAX_MEMBARRIER_THREADS]\<rparr>"


section \<open>Properties of the lock stressor\<close>

subsection \<open>Lists in the heap\<close>

lemma islist_upd_other:
  "a \<notin> set as \<Longrightarrow> islist (h(a := v)) p as = islist h p as"
  by (induction as arbitrary: p) (auto split: option.splits)

lemma islist_mapped: "islist h p as \<Longrightarrow> a \<in> set as \<Longrightarrow> h a \<noteq> None"
  by (induction as arbitrary: p) (auto split: option.splits)

lemma islist_head_None: "islist h None as \<longleftrightarrow> as = []"
  by (cases as) auto

lemma islist_head_Some: "islist h (Some a) as \<Longrightarrow> \<exists>bs. as = a # bs"
  by (cases as) auto

lemma islist_snoc:
  "islist h p as \<Longrightarrow> distinct as \<Longrightarrow> as \<noteq> [] \<Longrightarrow> h (last as) = Some n \<Longrightarrow> a \<notin> set as \<Longrightarrow>
   h a = Some m \<Longrightarrow> next' m = None \<Longrightarrow>
   islist (h(last as \<mapsto> n\<lparr>next' := Some a\<rparr>)) p (as @ [a])"
proof (induction as arbitrary: p)
  case Nil
  then show ?case by simp
next
  case (Cons b bs)
  show ?case
  proof (cases "bs = []")
    case True
    with Cons.prems show ?thesis by (auto split: option.splits)
  next
    case False
    with Cons.prems obtain nb where nb: "h b = Some nb" "islist h (next' nb) bs"
      by (auto split: option.splits)
    from False Cons.prems have "last bs \<noteq> b" by auto
    moreover have "islist (h(last bs \<mapsto> n\<lparr>next' := Some a\<rparr>)) (next' nb) (bs @ [a])"
      using Cons.prems False by (intro Cons.IH[OF nb(2)]) auto
    ultimately show ?thesis using Cons.prems nb False by (simp del: fun_upd_apply) simp
  qed
qed

lemma record_at_upd_other: "a \<noteq> b \<Longrightarrow> record_at (h(a := v)) b = record_at h b"
  by (simp add: record_at_def)

lemma record_at_next: "h a = Some n \<Longrightarrow> record_at (h(a \<mapsto> n\<lparr>next' := v\<rparr>)) b = record_at h b"
  by (simp add: record_at_def)

lemma walk_islist:
  "islist h p as \<Longrightarrow> length as \<le> n \<Longrightarrow> map (record_at h) as = map Some rs \<Longrightarrow> walk n h p = Some rs"
proof (induction n h p arbitrary: as rs rule: walk.induct)
  case (1 n h)
  then show ?case by (simp add: islist_head_None)
next
  case (2 h a)
  then show ?case by (cases as) auto
next
  case (3 n h a)
  then show ?case by (cases as; cases rs) (auto split: option.splits simp: record_at_def)
qed


subsection \<open>The list operations keep the representation\<close>

lemma info_new_recycle:
  assumes "lockofd_inv s as (f # fs)"
  shows "\<exists>s'. stress_lockofd_info_new c s = Some (Some f, s') \<and> lockofd_inv s' (as @ [f]) fs \<and>
           (\<forall>a \<in> set as. record_at (heap s') a = record_at (heap s) a) \<and>
           heap s' f \<noteq> None \<and> events s' = events s"
proof -
  from assms obtain n where n: "free s = Some f" "heap s f = Some n" "islist (heap s) (next' n) fs"
    and d: "distinct as" "f \<notin> set as" "f \<notin> set fs" "distinct fs" "set as \<inter> set fs = {}"
    and l: "islist (heap s) (head s) as" "length' s = of_nat (length as)"
    and t: "as \<noteq> [] \<Longrightarrow> tail s = Some (last as)"
    by (auto simp: lockofd_inv_def split: option.splits if_splits)
  let ?h1 = "(heap s)(f \<mapsto> n\<lparr>next' := None\<rparr>)"
  have l1: "islist ?h1 (head s) as" using l d by (simp add: islist_upd_other)
  have f1: "islist ?h1 (next' n) fs" using n d by (simp add: islist_upd_other)
  show ?thesis
  proof (cases "as = []")
    case True
    then have "head s = None" using l by simp
    then show ?thesis using True n d f1 l
      by (simp add: stress_lockofd_info_new_def lockofd_inv_def islist_upd_other)
  next
    case False
    then obtain b bs where as: "as = b # bs" by (cases as) auto
    then have hd: "head s = Some b" using l by simp
    have tl: "tail s = Some (last as)" using t False by simp
    have la: "last as \<in> set as" using False by simp
    then obtain m where m: "heap s (last as) = Some m" using islist_mapped[OF l(1)] by auto
    have ne: "last as \<noteq> f" using la d by auto
    have m1: "?h1 (last as) = Some m" using m ne by simp
    have "islist (?h1(last as \<mapsto> m\<lparr>next' := Some f\<rparr>)) (head s) (as @ [f])"
      using l1 d False m1 by (intro islist_snoc) auto
    moreover have "islist (?h1(last as \<mapsto> m\<lparr>next' := Some f\<rparr>)) (next' n) fs"
      using f1 la d by (subst islist_upd_other) auto
    ultimately show ?thesis using n d hd tl m1 m ne l False
      by (simp add: stress_lockofd_info_new_def lockofd_inv_def store_next_def record_at_def)
  qed
qed


lemma info_new_fresh:
  assumes "lockofd_inv s as []" and "a \<notin> set as"
  shows "\<exists>s'. stress_lockofd_info_new (Some a) s = Some (Some a, s') \<and> lockofd_inv s' (as @ [a]) [] \<and>
           (\<forall>b \<in> set as. record_at (heap s') b = record_at (heap s) b) \<and>
           heap s' a \<noteq> None \<and> events s' = events s"
proof -
  from assms have fr: "free s = None" and d: "distinct as"
    and l: "islist (heap s) (head s) as" "length' s = of_nat (length as)"
    and t: "as \<noteq> [] \<Longrightarrow> tail s = Some (last as)"
    by (auto simp: lockofd_inv_def split: if_splits)
  let ?z = "\<lparr>offset = 0, len = 0, next' = None\<rparr>"
  let ?h1 = "(heap s)(a \<mapsto> ?z)"
  have l1: "islist ?h1 (head s) as" using l assms(2) by (simp add: islist_upd_other)
  show ?thesis
  proof (cases "as = []")
    case True
    then have "head s = None" using l by simp
    then show ?thesis using True fr l
      by (simp add: stress_lockofd_info_new_def lockofd_inv_def)
  next
    case False
    then obtain b bs where as: "as = b # bs" by (cases as) auto
    then have hd: "head s = Some b" using l by simp
    have tl: "tail s = Some (last as)" using t False by simp
    have la: "last as \<in> set as" using False by simp
    then obtain m where m: "heap s (last as) = Some m" using islist_mapped[OF l(1)] by auto
    have ne: "last as \<noteq> a" using la assms(2) by auto
    have m1: "?h1 (last as) = Some m" using m ne by simp
    have "islist (?h1(last as \<mapsto> m\<lparr>next' := Some a\<rparr>)) (head s) (as @ [a])"
      using l1 d False m1 assms(2) by (intro islist_snoc) auto
    then show ?thesis using fr d hd tl m1 m ne l False assms(2)
      by (simp add: stress_lockofd_info_new_def lockofd_inv_def store_next_def record_at_def)
  qed
qed

lemma info_new_enomem: "free s = None \<Longrightarrow> stress_lockofd_info_new None s = Some (None, s)"
  by (simp add: stress_lockofd_info_new_def)

lemma islist_upd_fields:
  "h a = Some n \<Longrightarrow> next' n' = next' n \<Longrightarrow> islist (h(a \<mapsto> n')) p as = islist h p as"
  by (induction as arbitrary: p) (auto split: option.splits)

lemma lockofd_inv_upd_fields:
  assumes "lockofd_inv s as fs" "heap s a = Some n"
  shows "lockofd_inv (s\<lparr>heap := (heap s)(a \<mapsto> n\<lparr>offset := x, len := y\<rparr>)\<rparr>) as fs"
  using assms by (simp add: lockofd_inv_def islist_upd_fields)

lemma info_new_ok:
  assumes "lockofd_inv s as fs" and "new_addr c fs = Some p" and "p \<notin> set as"
  shows "\<exists>s'. stress_lockofd_info_new c s = Some (Some p, s') \<and> lockofd_inv s' (as @ [p]) (tl fs) \<and>
           (\<forall>b \<in> set as. record_at (heap s') b = record_at (heap s) b) \<and>
           heap s' p \<noteq> None \<and> events s' = events s"
proof (cases fs)
  case Nil
  with assms show ?thesis using info_new_fresh[of s as p] by (simp add: new_addr_def)
next
  case (Cons f fs')
  with assms show ?thesis using info_new_recycle[of s as f fs' c] by (simp add: new_addr_def)
qed

lemma record_lock_ok:
  assumes "lockofd_rep s as fs rs" and "new_addr c fs = Some p" and "p \<notin> set as"
  shows "\<exists>s'. record_lock c off lng s = Some (Some p, s') \<and>
           lockofd_rep s' (as @ [p]) (tl fs) (rs @ [(off, lng)]) \<and> events s' = events s"
proof -
  from assms have inv: "lockofd_inv s as fs" and rec: "map (record_at (heap s)) as = map Some rs"
    by (simp_all add: lockofd_rep_def)
  from info_new_ok[OF inv assms(2,3)] obtain s1 n where
    s1: "stress_lockofd_info_new c s = Some (Some p, s1)" "lockofd_inv s1 (as @ [p]) (tl fs)"
        "\<forall>b \<in> set as. record_at (heap s1) b = record_at (heap s) b" "heap s1 p = Some n"
        "events s1 = events s"
    by auto
  let ?s' = "s1\<lparr>heap := (heap s1)(p \<mapsto> n\<lparr>offset := off, len := lng\<rparr>)\<rparr>"
  have "record_lock c off lng s = Some (Some p, ?s')"
    using s1 by (simp add: record_lock_def)
  moreover have "lockofd_inv ?s' (as @ [p]) (tl fs)"
    using s1 by (intro lockofd_inv_upd_fields) auto
  moreover have "map (record_at (heap ?s')) (as @ [p]) = map Some (rs @ [(off, lng)])"
  proof -
    have "map (record_at (heap ?s')) as = map (record_at (heap s)) as"
      using s1(3) assms(3) by (intro map_cong) (auto simp: record_at_def)
    then show ?thesis using rec by (simp add: record_at_def)
  qed
  ultimately show ?thesis using s1(5) by (simp add: lockofd_rep_def)
qed

lemma record_lock_enomem:
  "free s = None \<Longrightarrow> record_lock None off lng s = Some (None, log_event (Pr_fail_err ''calloc'') s)"
  by (simp add: record_lock_def info_new_enomem)

lemma head_remove_ok:
  assumes "lockofd_rep s (a # as) fs (r # rs)"
  shows "\<exists>s'. stress_lockofd_info_head_remove s = Some s' \<and> lockofd_rep s' as (a # fs) rs \<and>
           events s' = events s"
proof -
  from assms obtain n where n: "head s = Some a" "heap s a = Some n" "islist (heap s) (next' n) as"
    and fr: "islist (heap s) (free s) fs"
    and d: "a \<notin> set as" "a \<notin> set fs" "distinct as" "distinct fs" "set as \<inter> set fs = {}"
    and t: "tail s = Some (last (a # as))" and l: "length' s = of_nat (length as) + 1"
    and rec: "map (record_at (heap s)) as = map Some rs"
    by (auto simp: lockofd_rep_def lockofd_inv_def split: option.splits)
  let ?h = "(heap s)(a \<mapsto> n\<lparr>next' := free s\<rparr>)"
  have a1: "islist ?h (next' n) as" using n d by (simp add: islist_upd_other)
  have f1: "islist ?h (Some a) (a # fs)" using fr d by (simp add: islist_upd_other)
  have r1: "map (record_at ?h) as = map Some rs"
  proof -
    have "map (record_at ?h) as = map (record_at (heap s)) as"
      using d by (intro map_cong) (auto simp: record_at_def)
    then show ?thesis using rec by simp
  qed
  show ?thesis
  proof (cases "as = []")
    case True
    then have "next' n = None" using n by simp
    with True n t f1 l r1 d show ?thesis
      by (simp add: stress_lockofd_info_head_remove_def store_next_def lockofd_rep_def
          lockofd_inv_def)
  next
    case False
    then have "last as \<in> set as" by simp
    with d have "last as \<noteq> a" by auto
    with False n t a1 f1 l r1 d show ?thesis
      by (simp add: stress_lockofd_info_head_remove_def store_next_def lockofd_rep_def
          lockofd_inv_def)
  qed
qed

lemma head_remove_empty: "head s = None \<Longrightarrow> stress_lockofd_info_head_remove s = Some s"
  by (simp add: stress_lockofd_info_head_remove_def)

subsection \<open>What can be read off a represented state\<close>

lemma lockofd_rep_log_event [simp]: "lockofd_rep (log_event ev s) as fs rs = lockofd_rep s as fs rs"
  by (simp add: lockofd_rep_def lockofd_inv_def log_event_def)

lemma list_state_log_event [simp]: "list_state (log_event ev s) = list_state s"
  by (simp add: list_state_def log_event_def)

lemma events_log_event [simp]: "events (log_event ev s) = events s @ [ev]"
  by (simp add: log_event_def)

lemma rep_lengths: "lockofd_rep s as fs rs \<Longrightarrow> length rs = length as"
  by (auto simp: lockofd_rep_def dest: map_eq_imp_length_eq)

lemma rep_length_field:
  "lockofd_rep s as fs rs \<Longrightarrow> length as < 2 ^ 64 \<Longrightarrow> unat (length' s) = length as"
  by (simp add: lockofd_rep_def lockofd_inv_def unat_of_nat)

lemma rep_queue_of:
  assumes "lockofd_rep s as fs rs" "length as < 2 ^ 64"
  shows "queue_of s = Some rs"
  unfolding queue_of_def using assms rep_length_field[OF assms]
  by (intro walk_islist[where as = as]) (simp_all add: lockofd_rep_def lockofd_inv_def)

lemma rep_head_record: "lockofd_rep s (a # as) fs (r # rs) \<Longrightarrow> head_record s = Some r"
  by (auto simp: lockofd_rep_def lockofd_inv_def head_record_def split: option.splits)

lemma unlock_ok:
  assumes "lockofd_rep s (a # as) fs (r # rs)"
  shows "\<exists>s1. stress_lockofd_info_head_remove s = Some s1 \<and> lockofd_rep s1 as (a # fs) rs \<and>
           events s1 = events s \<and>
           stress_lockofd_unlock x s =
             Some (if x < 0 then - 1 else 0,
               (if x < 0 then log_event (Pr_fail_err ''F_SETLK'') else id)
                 (log_event (Fcntl F_OFD_SETLK
                    \<lparr>l_type = F_UNLCK, l_whence = SEEK_SET, l_start = fst r, l_len = snd r,
                     l_pid = 0\<rparr>) s1))"
proof -
  from head_remove_ok[OF assms] obtain s1 where
    s1: "stress_lockofd_info_head_remove s = Some s1" "lockofd_rep s1 as (a # fs) rs"
        "events s1 = events s" by auto
  from assms obtain n where "head s = Some a" "heap s a = Some n" "r = (offset n, len n)"
    by (auto simp: lockofd_rep_def lockofd_inv_def record_at_def split: option.splits)
  with s1 show ?thesis by (auto simp: stress_lockofd_unlock_def)
qed

lemma unlock_empty: "head s = None \<Longrightarrow> stress_lockofd_unlock x s = Some (0, s)"
  by (simp add: stress_lockofd_unlock_def)

lemma full_iff:
  "n \<le> 1024 \<Longrightarrow> (scast LOCK_MAX \<le> (of_nat n :: 64 word)) = (n = 1024)"
  by (auto simp: LOCK_MAX_def word_le_nat_alt unat_of_nat)

subsection \<open>One pass through the loop body\<close>

lemma new_addr_fresh:
  assumes "lockofd_rep s as fs rs" "new_addr c fs = Some p"
    and "\<forall>a. c = Some a \<longrightarrow> a \<notin> set as \<union> set fs"
  shows "p \<notin> set as"
  using assms by (cases fs) (auto simp: new_addr_def lockofd_rep_def lockofd_inv_def)

lemma try_lock_refused:
  "getlk_result e < 0 \<Longrightarrow>
   try_lock e s =
     Some (Reach_condition (log_event (Fcntl F_OFD_GETLK
       \<lparr>l_type = F_WRLCK, l_whence = SEEK_SET,
        l_start = lock_offset (mwc64 e) (lock_len (mwc16 e)), l_len = lock_len (mwc16 e),
        l_pid = 0\<rparr>) s))"
  by (simp add: try_lock_def Let_def)

lemma try_lock_enomem:
  assumes "0 \<le> getlk_result e" "lockofd_rep s as fs rs" "new_addr (calloc_result e) fs = None"
  shows "try_lock e s =
     Some (Return (- 1) (log_event (Pr_fail_err ''calloc'') (log_event (Fcntl F_OFD_GETLK
       \<lparr>l_type = F_WRLCK, l_whence = SEEK_SET,
        l_start = lock_offset (mwc64 e) (lock_len (mwc16 e)), l_len = lock_len (mwc16 e),
        l_pid = 0\<rparr>) s)))"
proof -
  from assms(3) have "fs = []" "calloc_result e = None"
    by (auto simp: new_addr_def split: list.splits)
  with assms(2) have "free s = None" by (simp add: lockofd_rep_def lockofd_inv_def)
  then show ?thesis using assms(1) \<open>calloc_result e = None\<close>
    by (simp add: try_lock_def Let_def record_lock_def stress_lockofd_info_new_def log_event_def)
qed

lemma try_lock_recorded:
  assumes "0 \<le> getlk_result e" "lockofd_rep s as fs rs" "new_addr (calloc_result e) fs = Some p"
    and "\<forall>a. calloc_result e = Some a \<longrightarrow> a \<notin> set as \<union> set fs"
  shows "\<exists>s'. try_lock e s = Some (Reach_condition s') \<and>
           lockofd_rep s' (as @ [p]) (tl fs)
             (rs @ [(lock_offset (mwc64 e) (lock_len (mwc16 e)), lock_len (mwc16 e))]) \<and>
           events s' = events s @ [Fcntl F_OFD_GETLK
             \<lparr>l_type = F_WRLCK, l_whence = SEEK_SET,
              l_start = lock_offset (mwc64 e) (lock_len (mwc16 e)), l_len = lock_len (mwc16 e),
              l_pid = 0\<rparr>, Inc_counter]"
proof -
  let ?f = "\<lparr>l_type = F_WRLCK, l_whence = SEEK_SET,
              l_start = lock_offset (mwc64 e) (lock_len (mwc16 e)), l_len = lock_len (mwc16 e),
              l_pid = 0\<rparr>"
  let ?s2 = "log_event (Fcntl F_OFD_GETLK ?f) s"
  have rep2: "lockofd_rep ?s2 as fs rs" using assms(2) by simp
  have "p \<notin> set as" using new_addr_fresh[OF assms(2,3,4)] .
  from record_lock_ok[OF rep2 assms(3) this, of "lock_offset (mwc64 e) (lock_len (mwc16 e))" "lock_len (mwc16 e)"]
  obtain s3 where s3: "record_lock (calloc_result e) (lock_offset (mwc64 e) (lock_len (mwc16 e)))
        (lock_len (mwc16 e)) ?s2 = Some (Some p, s3)"
      "lockofd_rep s3 (as @ [p]) (tl fs)
        (rs @ [(lock_offset (mwc64 e) (lock_len (mwc16 e)), lock_len (mwc16 e))])"
      "events s3 = events ?s2" by auto
  then show ?thesis using assms(1) by (simp add: try_lock_def Let_def)
qed

lemma evict_not_full:
  "lockofd_rep s as fs rs \<Longrightarrow> length as < 1024 \<Longrightarrow> evict_if_full e s = Some (0, s)"
  using full_iff[of "length as"] by (simp add: evict_if_full_def lockofd_rep_def lockofd_inv_def)

lemma evict_full:
  assumes "lockofd_rep s (a # as) fs (r # rs)" "length (a # as) = 1024"
  shows "\<exists>s1. stress_lockofd_info_head_remove s = Some s1 \<and> lockofd_rep s1 as (a # fs) rs \<and>
           events s1 = events s \<and>
           evict_if_full e s =
             Some (if unlock_result e < 0 then - 1 else 0,
               (if unlock_result e < 0 then log_event (Pr_fail_err ''F_SETLK'') else id)
                 (log_event (Fcntl F_OFD_SETLK
                    \<lparr>l_type = F_UNLCK, l_whence = SEEK_SET, l_start = fst r, l_len = snd r,
                     l_pid = 0\<rparr>) s1))"
proof -
  have "scast LOCK_MAX \<le> length' s"
    using assms full_iff[of "length (a # as)"] by (simp add: lockofd_rep_def lockofd_inv_def)
  then show ?thesis using unlock_ok[OF assms(1), of "unlock_result e"]
    by (simp add: evict_if_full_def)
qed

lemma evict_step:
  assumes "lockofd_rep s as fs rs" "length as \<le> 1024"
  shows "\<exists>rc s1 as1 fs1 rs1. evict_if_full e s = Some (rc, s1) \<and> lockofd_rep s1 as1 fs1 rs1 \<and>
           length as1 < 1024 \<and> set as1 \<union> set fs1 = set as \<union> set fs \<and>
           (rc < 0 \<or> rc = 0)"
proof (cases "length as = 1024")
  case False
  with assms evict_not_full[of s as fs rs e] show ?thesis
    by (intro exI[of _ 0] exI[of _ s] exI[of _ as] exI[of _ fs] exI[of _ rs]) auto
next
  case True
  then obtain a as' where as: "as = a # as'" by (cases as) auto
  with rep_lengths[OF assms(1)] obtain r rs' where rs: "rs = r # rs'" by (cases rs) auto
  from evict_full[of s a as' fs r rs' e] assms True as rs
  obtain s1 where s1: "lockofd_rep s1 as' (a # fs) rs'"
    "evict_if_full e s =
             Some (if unlock_result e < 0 then - 1 else 0,
               (if unlock_result e < 0 then log_event (Pr_fail_err ''F_SETLK'') else id)
                 (log_event (Fcntl F_OFD_SETLK
                    \<lparr>l_type = F_UNLCK, l_whence = SEEK_SET, l_start = fst r, l_len = snd r,
                     l_pid = 0\<rparr>) s1))" by auto
  show ?thesis
  proof (cases "unlock_result e < 0")
    case True
    with s1 as \<open>length as = 1024\<close> show ?thesis
      by (intro exI[of _ "- 1"] exI[of _ "log_event (Pr_fail_err ''F_SETLK'') (log_event (Fcntl F_OFD_SETLK
                    \<lparr>l_type = F_UNLCK, l_whence = SEEK_SET, l_start = fst r, l_len = snd r,
                     l_pid = 0\<rparr>) s1)"] exI[of _ as'] exI[of _ "a # fs"] exI[of _ rs']) auto
  next
    case False
    with s1 as \<open>length as = 1024\<close> show ?thesis
      by (intro exI[of _ 0] exI[of _ "log_event (Fcntl F_OFD_SETLK
                    \<lparr>l_type = F_UNLCK, l_whence = SEEK_SET, l_start = fst r, l_len = snd r,
                     l_pid = 0\<rparr>) s1"] exI[of _ as'] exI[of _ "a # fs"] exI[of _ rs']) auto
  qed
qed

lemma try_lock_step:
  assumes "lockofd_rep s as fs rs" "length as < 1024"
    and "\<forall>a. calloc_result e = Some a \<longrightarrow> a \<notin> set as \<union> set fs"
  shows "\<exists>c as' fs' rs'. try_lock e s = Some c \<and> lockofd_rep (state_of c) as' fs' rs' \<and>
           length as' \<le> 1024 \<and>
           set as' \<union> set fs' \<subseteq> set as \<union> set fs \<union> set_option (calloc_result e)"
proof (cases "getlk_result e < 0")
  case True
  with assms show ?thesis
    by (intro exI[of _ "Reach_condition (log_event (Fcntl F_OFD_GETLK
       \<lparr>l_type = F_WRLCK, l_whence = SEEK_SET,
        l_start = lock_offset (mwc64 e) (lock_len (mwc16 e)), l_len = lock_len (mwc16 e),
        l_pid = 0\<rparr>) s)"] exI[of _ as] exI[of _ fs] exI[of _ rs])
      (auto simp: try_lock_refused)
next
  case False
  then have ok: "0 \<le> getlk_result e" by simp
  show ?thesis
  proof (cases "new_addr (calloc_result e) fs")
    case None
    from try_lock_enomem[OF ok assms(1) None] assms show ?thesis
      by (intro exI[of _ "Return (- 1) (log_event (Pr_fail_err ''calloc'') (log_event (Fcntl F_OFD_GETLK
       \<lparr>l_type = F_WRLCK, l_whence = SEEK_SET,
        l_start = lock_offset (mwc64 e) (lock_len (mwc16 e)), l_len = lock_len (mwc16 e),
        l_pid = 0\<rparr>) s))"] exI[of _ as] exI[of _ fs] exI[of _ rs]) auto
  next
    case (Some p)
    from try_lock_recorded[OF ok assms(1) Some assms(3)] obtain s' where
      s': "try_lock e s = Some (Reach_condition s')"
      "lockofd_rep s' (as @ [p]) (tl fs)
             (rs @ [(lock_offset (mwc64 e) (lock_len (mwc16 e)), lock_len (mwc16 e))])" by auto
    have "set (as @ [p]) \<union> set (tl fs) \<subseteq> set as \<union> set fs \<union> set_option (calloc_result e)"
      using Some by (cases fs) (auto simp: new_addr_def)
    with s' assms(2) show ?thesis
      by (intro exI[of _ "Reach_condition s'"] exI[of _ "as @ [p]"] exI[of _ "tl fs"]
          exI[of _ "rs @ [(lock_offset (mwc64 e) (lock_len (mwc16 e)), lock_len (mwc16 e))]"])
        auto
  qed
qed

lemma body_step:
  assumes "lockofd_rep s as fs rs" "length as \<le> 1024"
    and "\<forall>a. calloc_result e = Some a \<longrightarrow> a \<notin> set as \<union> set fs"
  shows "\<exists>c as' fs' rs'. contention_body e s = Some c \<and> lockofd_rep (state_of c) as' fs' rs' \<and>
           length as' \<le> 1024 \<and>
           set as' \<union> set fs' \<subseteq> set as \<union> set fs \<union> set_option (calloc_result e)"
proof -
  from evict_step[OF assms(1,2), of e] obtain rc s1 as1 fs1 rs1 where
    e1: "evict_if_full e s = Some (rc, s1)" "lockofd_rep s1 as1 fs1 rs1" "length as1 < 1024"
      "set as1 \<union> set fs1 = set as \<union> set fs" "rc < 0 \<or> rc = 0" by blast
  show ?thesis
  proof (cases "rc < 0")
    case True
    with e1 show ?thesis
      by (intro exI[of _ "Return (- 1) s1"] exI[of _ as1] exI[of _ fs1] exI[of _ rs1])
        (auto simp: contention_body_def)
  next
    case False
    have fr: "\<forall>a. calloc_result e = Some a \<longrightarrow> a \<notin> set as1 \<union> set fs1"
      using assms(3) e1(4) by simp
    from try_lock_step[OF e1(2,3) fr] obtain c as' fs' rs' where
      "try_lock e s1 = Some c" "lockofd_rep (state_of c) as' fs' rs'" "length as' \<le> 1024"
      "set as' \<union> set fs' \<subseteq> set as1 \<union> set fs1 \<union> set_option (calloc_result e)" by blast
    with e1 False show ?thesis
      by (intro exI[of _ c] exI[of _ as'] exI[of _ fs'] exI[of _ rs'])
        (auto simp: contention_body_def)
  qed
qed

lemma calloc_addrs_Cons:
  "set (calloc_addrs (e # es)) = set_option (calloc_result e) \<union> set (calloc_addrs es)"
  by (cases "calloc_result e") auto

lemma calloc_addrs_append: "calloc_addrs (es @ fs) = calloc_addrs es @ calloc_addrs fs"
  by (induction es) (auto split: option.splits)

lemma contention_inv:
  assumes "lockofd_rep s as fs rs" "length as \<le> 1024" "distinct (calloc_addrs es)"
    and "set (calloc_addrs es) \<inter> (set as \<union> set fs) = {}"
  shows "\<exists>r s' as' fs' rs'. stress_lockofd_contention es s = Some (r, s') \<and>
           lockofd_rep s' as' fs' rs' \<and> length as' \<le> 1024 \<and>
           set as' \<union> set fs' \<subseteq> set as \<union> set fs \<union> set (calloc_addrs es)"
  using assms
proof (induction es arbitrary: s as fs rs)
  case Nil
  then show ?case by auto
next
  case (Cons e es)
  have fr: "\<forall>a. calloc_result e = Some a \<longrightarrow> a \<notin> set as \<union> set fs"
    using Cons.prems(4) by (auto split: option.splits)
  from body_step[OF Cons.prems(1,2) fr] obtain c as1 fs1 rs1 where
    c: "contention_body e s = Some c" "lockofd_rep (state_of c) as1 fs1 rs1" "length as1 \<le> 1024"
      "set as1 \<union> set fs1 \<subseteq> set as \<union> set fs \<union> set_option (calloc_result e)" by blast
  have sub: "set as \<union> set fs \<union> set_option (calloc_result e) \<subseteq>
        set as \<union> set fs \<union> set (calloc_addrs (e # es))"
    by (auto simp: calloc_addrs_Cons)
  show ?case
  proof (cases c)
    case (Return r s')
    with c sub show ?thesis
      by (intro exI[of _ "Some r"] exI[of _ s'] exI[of _ as1] exI[of _ fs1] exI[of _ rs1]) auto
  next
    case (Reach_condition s')
    show ?thesis
    proof (cases "keep_stressing e")
      case False
      with c sub Reach_condition show ?thesis
        by (intro exI[of _ "Some 0"] exI[of _ s'] exI[of _ as1] exI[of _ fs1] exI[of _ rs1]) auto
    next
      case True
      have d: "distinct (calloc_addrs es)" using Cons.prems(3) by (auto split: option.splits)
      have dj: "set (calloc_addrs es) \<inter> (set as1 \<union> set fs1) = {}"
        using Cons.prems(3,4) c(4) by (auto split: option.splits)
      have rep': "lockofd_rep s' as1 fs1 rs1" using c(2) Reach_condition by simp
      from Cons.IH[OF rep' c(3) d dj] obtain r s'' as' fs' rs' where
        ih: "stress_lockofd_contention es s' = Some (r, s'')" "lockofd_rep s'' as' fs' rs'"
        "length as' \<le> 1024" "set as' \<union> set fs' \<subseteq> set as1 \<union> set fs1 \<union> set (calloc_addrs es)"
        by blast
      have run: "stress_lockofd_contention (e # es) s = Some (r, s'')"
        using c(1) True Reach_condition ih(1) by simp
      have "set as' \<union> set fs' \<subseteq> set as \<union> set fs \<union> set (calloc_addrs (e # es))"
        using ih(4) c(4) unfolding calloc_addrs_Cons by blast
      with run ih(2,3) show ?thesis by blast
    qed
  qed
qed

lemma rep_init: "lockofd_rep lockofd_init [] [] []"
  by (simp add: lockofd_rep_def lockofd_inv_def lockofd_init_def)

subsection \<open>Sequences of pushes and pops\<close>

lemma pushes_ok:
  assumes "lockofd_rep s as [] rs0" "distinct cs" "set cs \<inter> set as = {}" "length cs = length rs"
  shows "\<exists>s'. pushes (zip (map Some cs) rs) s = Some s' \<and> lockofd_rep s' (as @ cs) [] (rs0 @ rs)"
  using assms
proof (induction cs arbitrary: s as rs0 rs)
  case Nil
  then show ?case by simp
next
  case (Cons c cs)
  then obtain r rs' where rs: "rs = r # rs'" by (cases rs) auto
  obtain off lng where r: "r = (off, lng)" by (cases r)
  have "new_addr (Some c) [] = Some c" by (simp add: new_addr_def)
  moreover have "c \<notin> set as" using Cons.prems(3) by auto
  ultimately obtain s1 where s1: "record_lock (Some c) off lng s = Some (Some c, s1)"
    "lockofd_rep s1 (as @ [c]) [] (rs0 @ [(off, lng)])"
    using record_lock_ok[OF Cons.prems(1), of "Some c" c off lng] by auto
  have "\<exists>s'. pushes (zip (map Some cs) rs') s1 = Some s' \<and>
          lockofd_rep s' ((as @ [c]) @ cs) [] ((rs0 @ [(off, lng)]) @ rs')"
    using Cons.prems rs by (intro Cons.IH[OF s1(2)]) auto
  then show ?case using s1(1) rs r by simp
qed

lemma pops_ok:
  assumes "lockofd_rep s as fs rs" "k \<le> length rs"
  shows "\<exists>s'. pops k s = Some s' \<and> lockofd_rep s' (drop k as) (rev (take k as) @ fs) (drop k rs)"
  using assms
proof (induction k arbitrary: s as fs rs)
  case 0
  then show ?case by simp
next
  case (Suc k)
  from Suc.prems obtain r rs' where rs: "rs = r # rs'" by (cases rs) auto
  with rep_lengths[OF Suc.prems(1)] obtain a as' where as: "as = a # as'" by (cases as) auto
  from head_remove_ok[of s a as' fs r rs'] Suc.prems(1) rs as obtain s1 where
    s1: "stress_lockofd_info_head_remove s = Some s1" "lockofd_rep s1 as' (a # fs) rs'" by auto
  from Suc.IH[OF s1(2)] Suc.prems(2) rs obtain s' where
    "pops k s1 = Some s'" "lockofd_rep s' (drop k as') (rev (take k as') @ a # fs) (drop k rs')"
    by auto
  then show ?case using s1(1) rs as by simp
qed

lemma rep_walk:
  assumes "lockofd_rep s as fs rs" "length rs \<le> n"
  shows "walk n (heap s) (head s) = Some rs"
  using assms rep_lengths[OF assms(1)]
  by (intro walk_islist[where as = as]) (simp_all add: lockofd_rep_def lockofd_inv_def)

subsection \<open>The range of a lock request\<close>

lemma uint_lock_len: "uint (lock_len v) = (uint v + 1) mod 4096"
proof -
  let ?y = "(ucast v :: 32 word) + 1"
  let ?x = "?y AND 0xfff"
  have v: "uint v < 65536" using uint_bounded[of v] by simp
  have y: "uint ?y = uint v + 1"
    using v by (simp add: uint_word_ariths uint_up_ucast is_up)
  have "?x = take_bit 12 ?y"
    by (simp add: take_bit_eq_mask mask_eq_exp_minus_1)
  then have "uint ?x = take_bit 12 (uint ?y)"
    by (simp only: unsigned_take_bit_eq)
  then have x: "uint ?x = (uint v + 1) mod 4096"
    using y by (simp add: take_bit_eq_mod)
  then have b: "0 \<le> uint ?x" "uint ?x < 4096" by simp_all
  have "sint ?x = signed_take_bit 31 (uint ?x)" by (simp add: sint_uint)
  also have "\<dots> = uint ?x"
  proof (rule signed_take_bit_int_eq_self)
    show "- (2 ^ 31) \<le> uint ?x" by (rule order_trans [of _ 0]) simp_all
    show "uint ?x < 2 ^ 31" using b(2) by simp
  qed
  finally have s: "sint ?x = uint ?x" .
  have "uint (scast ?x :: 64 word) = take_bit 64 (sint ?x)"
    by (simp only: scast_eq uint_word_of_int_eq) simp
  also have "\<dots> = uint ?x" unfolding s using b by (intro take_bit_int_eq_self) simp_all
  finally show ?thesis using x by (simp add: lock_len_def)
qed

lemma lock_file_size_cast: "(scast LOCK_FILE_SIZE :: 64 word) = 1048576"
  by (simp add: LOCK_FILE_SIZE_def)

lemma lock_request_range:
  "0 \<le> uint (lock_len v) \<and> uint (lock_len v) \<le> 4095 \<and>
   0 \<le> uint (lock_offset w (lock_len v)) \<and>
   uint (lock_offset w (lock_len v)) + uint (lock_len v) < 1048576 \<and>
   sint (lock_len v) = uint (lock_len v) \<and>
   sint (lock_offset w (lock_len v)) = uint (lock_offset w (lock_len v))"
proof -
  let ?l = "lock_len v"
  have l: "uint ?l < 4096" "0 \<le> uint ?l" by (simp_all add: uint_lock_len)
  let ?d = "(1048576 :: 64 word) - ?l"
  have "uint ?d = (1048576 - uint ?l) mod 18446744073709551616"
    by (simp add: uint_word_ariths)
  also have "\<dots> = 1048576 - uint ?l"
  proof (rule mod_pos_pos_trivial)
    show "0 \<le> 1048576 - uint ?l" using l by linarith
    show "1048576 - uint ?l < 18446744073709551616" using l by linarith
  qed
  finally have d: "uint ?d = 1048576 - uint ?l" .
  then have "0 < uint ?d" using l by simp
  then have "0 < ?d" by (simp add: word_less_def)
  then have "w mod ?d < ?d" by (rule word_mod_less_divisor)
  then have o: "uint (lock_offset w ?l) < 1048576 - uint ?l"
    using d by (simp add: lock_offset_def lock_file_size_cast word_less_def)
  have s1: "sint ?l = uint ?l"
    unfolding sint_uint
  proof (rule signed_take_bit_int_eq_self)
    show "- (2 ^ (LENGTH(64) - Suc 0)) \<le> uint ?l" by (rule order_trans [of _ 0]) simp_all
    show "uint ?l < 2 ^ (LENGTH(64) - Suc 0)" using l by simp
  qed
  have o2: "uint (lock_offset w ?l) < 1048576"
    using o l(2) by linarith
  have s2: "sint (lock_offset w ?l) = uint (lock_offset w ?l)"
    unfolding sint_uint
  proof (rule signed_take_bit_int_eq_self)
    show "- (2 ^ (LENGTH(64) - Suc 0)) \<le> uint (lock_offset w ?l)"
      by (rule order_trans [of _ 0]) simp_all
    show "uint (lock_offset w ?l) < 2 ^ (LENGTH(64) - Suc 0)" using o2 by simp
  qed
  show ?thesis using l o s1 s2 by simp
qed

subsection \<open>States the loop reaches\<close>

lemma reachable_rep:
  assumes "distinct (calloc_addrs es)"
    and "stress_lockofd_contention es lockofd_init = Some (r, s)"
  shows "\<exists>as fs rs. lockofd_rep s as fs rs \<and> length as \<le> 1024 \<and>
           set as \<union> set fs \<subseteq> set (calloc_addrs es)"
  using contention_inv[OF rep_init _ assms(1)] assms(2) by fastforce


lemma rep_free_None: "lockofd_rep s as fs rs \<Longrightarrow> (free s = None) = (fs = [])"
  by (cases fs) (auto simp: lockofd_rep_def lockofd_inv_def)

lemma rep_head_None: "lockofd_rep s as fs rs \<Longrightarrow> (head s = None) = (as = [])"
  by (cases as) (auto simp: lockofd_rep_def lockofd_inv_def)

lemma list_state_queue_of: "list_state s = list_state t \<Longrightarrow> queue_of s = queue_of t"
  by (simp add: list_state_def queue_of_def)

lemma contention_append:
  "stress_lockofd_contention (es @ es') s =
     (case stress_lockofd_contention es s of
        Some (None, s') \<Rightarrow> stress_lockofd_contention es' s'
      | x \<Rightarrow> x)"
proof (induction es arbitrary: s)
  case Nil
  then show ?case by simp
next
  case (Cons e es)
  show ?case
  proof (cases "contention_body e s")
    case None
    then show ?thesis by simp
  next
    case (Some c)
    then show ?thesis using Cons.IH by (cases c) simp_all
  qed
qed


lemma fill_ok:
  "n \<le> 1024 \<Longrightarrow>
   \<exists>s. stress_lockofd_contention (map fill_env [0..<n]) lockofd_init = Some (None, s) \<and>
       lockofd_rep s [0..<n] [] (replicate n fill_rec)"
proof (induction n)
  case 0
  then show ?case by (simp add: rep_init)
next
  case (Suc n)
  then obtain s where s: "stress_lockofd_contention (map fill_env [0..<n]) lockofd_init = Some (None, s)"
    "lockofd_rep s [0..<n] [] (replicate n fill_rec)" by auto
  have "evict_if_full (fill_env n) s = Some (0, s)"
    using evict_not_full[OF s(2)] Suc.prems by simp
  moreover have "\<exists>s'. try_lock (fill_env n) s = Some (Reach_condition s') \<and>
      lockofd_rep s' ([0..<n] @ [n]) (tl []) (replicate n fill_rec @ [fill_rec])"
    using try_lock_recorded[OF _ s(2), of "fill_env n" n]
    by (auto simp: fill_env_def new_addr_def fill_rec_def)
  ultimately obtain s' where s': "contention_body (fill_env n) s = Some (Reach_condition s')"
    "lockofd_rep s' [0..<Suc n] [] (replicate (Suc n) fill_rec)"
    by (auto simp: contention_body_def replicate_append_same)
  have "stress_lockofd_contention (map fill_env [0..<Suc n]) lockofd_init = Some (None, s')"
    using s(1) s'(1) by (simp add: contention_append fill_env_def)
  with s'(2) show ?case by blast
qed

lemma evict_reachable:
  assumes "lockofd_rep s as fs rs" "length as \<le> 1024" "evict_if_full e s = Some (rc, s1)"
  shows "\<exists>as1 fs1 rs1. lockofd_rep s1 as1 fs1 rs1 \<and> length as1 < 1024 \<and>
           set as1 \<union> set fs1 = set as \<union> set fs \<and> (rc < 0 \<or> rc = 0)"
  using evict_step[OF assms(1,2), of e] assms(3) by auto

subsection \<open>What a pass records and which calls it makes\<close>

text \<open>
  In every pass \<open>e\<close> of the loop run from the empty list (the addresses \<^verbatim>\<open>calloc\<close> hands
  out being pairwise different), with \<open>s1\<close> the state after the eviction step and \<open>rc\<close>
  that step's result: a record holding the drawn offset and length is appended at the tail,
  and the loop goes on, exactly when the eviction did not fail, the \<^verbatim>\<open>fcntl\<close> call of the
  pass returned a non-negative value, and a record is available (the free pool is not empty
  or \<^verbatim>\<open>calloc\<close> succeeds). In every other case the list, the free pool and the length
  are what they were after the eviction step.
\<close>

lemma pass_records_iff:
  assumes "distinct (calloc_addrs (es @ [e]))"
    and "stress_lockofd_contention es lockofd_init = Some (None, s)"
    and "evict_if_full e s = Some (rc, s1)"
  shows "\<exists>c q. contention_body e s = Some c \<and> queue_of s1 = Some q \<and>
     (if 0 \<le> rc \<and> 0 \<le> getlk_result e \<and> (free s1 \<noteq> None \<or> calloc_result e \<noteq> None)
      then c = Reach_condition (state_of c) \<and>
           queue_of (state_of c) =
             Some (q @ [(lock_offset (mwc64 e) (lock_len (mwc16 e)), lock_len (mwc16 e))])
      else list_state (state_of c) = list_state s1)"
proof -
  have d: "distinct (calloc_addrs es)" using assms(1) by (simp add: calloc_addrs_append)
  from reachable_rep[OF d assms(2)] obtain as fs rs where
    rep: "lockofd_rep s as fs rs" and len: "length as \<le> 1024"
    and sub: "set as \<union> set fs \<subseteq> set (calloc_addrs es)" by blast
  from evict_reachable[OF rep len assms(3)] obtain as1 fs1 rs1 where
    rep1: "lockofd_rep s1 as1 fs1 rs1" and len1: "length as1 < 1024"
    and same: "set as1 \<union> set fs1 = set as \<union> set fs" and rc: "rc < 0 \<or> rc = 0" by blast
  have fr: "\<forall>a. calloc_result e = Some a \<longrightarrow> a \<notin> set as1 \<union> set fs1"
    using assms(1) sub same by (auto simp: calloc_addrs_append split: option.splits)
  have small: "length as1 < 2 ^ 64" using len1 by simp
  have q: "queue_of s1 = Some rs1" using rep_queue_of[OF rep1 small] .
  let ?new = "(lock_offset (mwc64 e) (lock_len (mwc16 e)), lock_len (mwc16 e))"
  show ?thesis
  proof (cases "rc < 0")
    case True
    then have "contention_body e s = Some (Return (- 1) s1)"
      using assms(3) by (simp add: contention_body_def)
    with True q show ?thesis by simp
  next
    case False
    then have body: "contention_body e s = try_lock e s1"
      using assms(3) by (simp add: contention_body_def)
    show ?thesis
    proof (cases "getlk_result e < 0")
      case True
      with body q try_lock_refused[OF True, of s1] show ?thesis by simp
    next
      case nonneg: False
      then have ok: "0 \<le> getlk_result e" by simp
      show ?thesis
      proof (cases "new_addr (calloc_result e) fs1")
        case None
        then have "fs1 = []" "calloc_result e = None"
          by (auto simp: new_addr_def split: list.splits)
        then have "free s1 = None \<and> calloc_result e = None"
          using rep_free_None[OF rep1] by simp
        with body q try_lock_enomem[OF ok rep1 None] show ?thesis by simp
      next
        case (Some p)
        then have av: "free s1 \<noteq> None \<or> calloc_result e \<noteq> None"
          using rep_free_None[OF rep1] by (auto simp: new_addr_def split: list.splits)
        from try_lock_recorded[OF ok rep1 Some fr] obtain s' where
          s': "try_lock e s1 = Some (Reach_condition s')"
            "lockofd_rep s' (as1 @ [p]) (tl fs1) (rs1 @ [?new])" by blast
        have "length (as1 @ [p]) < 2 ^ 64" using len1 by simp
        from rep_queue_of[OF s'(2) this] have "queue_of s' = Some (rs1 @ [?new])" .
        with body q s'(1) av ok False rc show ?thesis by simp
      qed
    qed
  qed
qed

text \<open>
  A pass in which the \<^verbatim>\<open>fcntl\<close> call returns 0 and \<^verbatim>\<open>calloc\<close> returns \<^verbatim>\<open>NULL\<close>: nothing
  is appended and the function returns -1 (lines 189 to 192).
\<close>

lemma pass_enomem:
  "0 \<le> getlk_result enomem_env \<and>
   contention_body enomem_env lockofd_init =
     Some (Return (- 1)
       (log_event (Pr_fail_err ''calloc'')
         (log_event
           (Fcntl F_OFD_GETLK
             \<lparr>l_type = F_WRLCK, l_whence = SEEK_SET, l_start = 100, l_len = 8, l_pid = 0\<rparr>)
           lockofd_init))) \<and>
   queue_of
     (log_event (Pr_fail_err ''calloc'')
       (log_event
         (Fcntl F_OFD_GETLK
           \<lparr>l_type = F_WRLCK, l_whence = SEEK_SET, l_start = 100, l_len = 8, l_pid = 0\<rparr>)
         lockofd_init)) = Some []"
  by (simp add: enomem_env_def contention_body_def evict_if_full_def try_lock_def record_lock_def
      stress_lockofd_info_new_def lockofd_init_def LOCK_MAX_def lock_len_def lock_offset_def
      LOCK_FILE_SIZE_def log_event_def queue_of_def)

text \<open>
  The calls of the second part of a pass: exactly one \<^verbatim>\<open>fcntl\<close> call, with the command
  \<^verbatim>\<open>F_OFD_GETLK\<close> and a write lock on the drawn range as its argument, whatever the
  state and the inputs. No call with \<^verbatim>\<open>F_OFD_SETLK\<close> or \<^verbatim>\<open>F_OFD_SETLKW\<close> is made there.
\<close>

lemma info_new_events:
  "stress_lockofd_info_new c s = Some (p, s') \<Longrightarrow> events s' = events s"
  by (auto simp: stress_lockofd_info_new_def store_next_def bind_eq_Some_conv
      split: option.splits if_splits)

lemma record_lock_events:
  assumes "record_lock c off lng s = Some (p, s')"
  shows "events s' = events s @ (if p = None then [Pr_fail_err ''calloc''] else [])"
proof -
  from assms obtain q s1 where n: "stress_lockofd_info_new c s = Some (q, s1)"
    by (auto simp: record_lock_def bind_eq_Some_conv)
  then have "events s1 = events s" by (rule info_new_events)
  with assms n show ?thesis
    by (auto simp: record_lock_def log_event_def bind_eq_Some_conv split: option.splits)
qed

lemma try_lock_events:
  assumes "try_lock e s = Some c"
  shows "\<exists>evs. events (state_of c) = events s @
           Fcntl F_OFD_GETLK
             \<lparr>l_type = F_WRLCK, l_whence = SEEK_SET,
              l_start = lock_offset (mwc64 e) (lock_len (mwc16 e)),
              l_len = lock_len (mwc16 e), l_pid = 0\<rparr> # evs \<and>
         set evs \<subseteq> {Pr_fail_err ''calloc'', Inc_counter}"
proof (cases "getlk_result e < 0")
  case True
  with assms show ?thesis by (auto simp: try_lock_refused)
next
  case False
  with assms show ?thesis
    by (auto simp: try_lock_def Let_def bind_eq_Some_conv dest!: record_lock_events
        split: option.splits)
qed

section \<open>Claims about the lock stressor\<close>

text \<open>
  Claim C3. The tracking list is a strict first-in first-out queue. Starting from the empty
  list, let \<open>N\<close> locks \<open>rs\<close> be recorded one after the other (each record comes from
  \<^verbatim>\<open>calloc\<close>, which hands out pairwise different addresses \<open>cs\<close>), and let \<open>k \<le> N\<close>
  heads be removed afterwards. Then all these calls succeed; for every \<open>j < k\<close> the record
  at the head when the \<open>j+1\<close>-th removal happens is the \<open>j\<close>-th lock recorded; and the
  list left after \<open>k\<close> removals holds the remaining locks in the order recorded.
\<close>

theorem fifo_order:
  assumes "distinct cs" and "length cs = length rs" and "k \<le> length rs"
  shows "\<exists>s. pushes (zip (map Some cs) rs) lockofd_init = Some s \<and>
           (\<forall>j<k. \<exists>t. pops j s = Some t \<and> head_record t = Some (rs ! j)) \<and>
           (\<exists>t. pops k s = Some t \<and> walk (length rs) (heap t) (head t) = Some (drop k rs))"
proof -
  from pushes_ok[OF rep_init assms(1) _ assms(2)] obtain s where
    s: "pushes (zip (map Some cs) rs) lockofd_init = Some s" "lockofd_rep s cs [] rs" by auto
  have "\<exists>t. pops j s = Some t \<and> head_record t = Some (rs ! j)" if "j < k" for j
  proof -
    from that assms(3) have j: "j < length rs" by simp
    from pops_ok[OF s(2), of j] j obtain t where
      t: "pops j s = Some t" "lockofd_rep t (drop j cs) (rev (take j cs) @ []) (drop j rs)" by auto
    from j assms(2) have "drop j cs = cs ! j # drop (Suc j) cs" "drop j rs = rs ! j # drop (Suc j) rs"
      by (simp_all add: Cons_nth_drop_Suc)
    with t(2) have "head_record t = Some (rs ! j)" using rep_head_record by metis
    with t(1) show ?thesis by simp
  qed
  moreover from pops_ok[OF s(2) assms(3)] obtain t where
    t: "pops k s = Some t" "lockofd_rep t (drop k cs) (rev (take k cs) @ []) (drop k rs)" by auto
  have "walk (length rs) (heap t) (head t) = Some (drop k rs)"
    using rep_walk[OF t(2)] by simp
  ultimately show ?thesis using s(1) t(1) by blast
qed

theorem fifo_order_witness:
  "distinct [1, 2, 3 :: nat] \<and>
   length [1, 2, 3 :: nat] = length [(0, 1), (16, 2), (32, 3 :: off_t) :: off_t \<times> off_t] \<and>
   (2 :: nat) \<le> length [(0, 1), (16, 2), (32, 3 :: off_t) :: off_t \<times> off_t] \<and>
   (\<exists>s. pushes (zip (map Some [1, 2, 3]) [(0, 1), (16, 2), (32, 3)]) lockofd_init = Some s \<and>
      (\<forall>j<2. \<exists>t. pops j s = Some t \<and> head_record t = Some ([(0, 1), (16, 2), (32, 3)] ! j)) \<and>
      (\<exists>t. pops 2 s = Some t \<and>
        walk (length [(0, 1), (16, 2), (32, 3 :: off_t) :: off_t \<times> off_t]) (heap t) (head t) =
          Some (drop 2 [(0, 1), (16, 2), (32, 3)])))"
proof -
  have h1: "distinct [1, 2, 3 :: nat]" by simp
  have h2: "length [1, 2, 3 :: nat] = length [(0, 1), (16, 2), (32, 3 :: off_t) :: off_t \<times> off_t]"
    by simp
  have h3: "(2 :: nat) \<le> length [(0, 1), (16, 2), (32, 3 :: off_t) :: off_t \<times> off_t]"
    by simp
  show ?thesis
    by (rule conjI [OF h1 conjI [OF h2 conjI [OF h3 fifo_order [OF h1 h2 h3]]]])
qed

text \<open>
  Claim C2 says that every drawn length lies in \<open>[1, 4096]\<close>. The code adds one before it
  masks with \<open>0xfff\<close>, so the draws \<open>0x0fff\<close> and \<open>0xffff\<close> of \<^verbatim>\<open>mwc16()\<close> give the
  length 0 (which \<^verbatim>\<open>fcntl\<close> reads as "to the end of the file"), and no draw gives 4096:
  the lengths are \<open>[0, 4095]\<close> (lemma \<open>lock_request_range\<close>, which also shows that the
  offset part of the claim holds).
\<close>

theorem lock_len_zero: "lock_len 0x0FFF = 0 \<and> lock_len 0xFFFF = 0"
  by (simp add: lock_len_def)



text \<open>
  Claim C1 says that a record is appended exactly when a write lock on the drawn range has
  been acquired, and that nothing is recorded when the range is locked elsewhere. The pass
  makes one \<^verbatim>\<open>fcntl\<close> call, with the command \<^verbatim>\<open>F_OFD_GETLK\<close> (line 182), which asks
  whether the lock could be placed and never places it; the pass looks only at the returned
  \<^verbatim>\<open>int\<close>, not at what the call reports in \<^verbatim>\<open>f\<close>. So in the pass \<open>fill_env 0\<close> from
  the empty list, where the call returns 0, the record for the range at offset 100 of
  length 8 is appended and counted, although the only call made is the query.
\<close>

theorem record_appended_after_query_only:
  "getlk_result (fill_env 0) = 0 \<and>
   contention_body (fill_env 0) lockofd_init =
     Some (Reach_condition
       \<lparr>head = Some 0, tail = Some 0, free = None, length' = 1,
        heap = (\<lambda>_. None)(0 \<mapsto> \<lparr>offset = 100, len = 8, next' = None\<rparr>),
        events =
          [Fcntl F_OFD_GETLK
             \<lparr>l_type = F_WRLCK, l_whence = SEEK_SET, l_start = 100, l_len = 8, l_pid = 0\<rparr>,
           Inc_counter]\<rparr>) \<and>
   queue_of
       \<lparr>head = Some 0, tail = Some 0, free = None, length' = 1,
        heap = (\<lambda>_. None)(0 \<mapsto> \<lparr>offset = 100, len = 8, next' = None\<rparr>),
        events =
          [Fcntl F_OFD_GETLK
             \<lparr>l_type = F_WRLCK, l_whence = SEEK_SET, l_start = 100, l_len = 8, l_pid = 0\<rparr>,
           Inc_counter]\<rparr> = Some [(100, 8)]"
  by (simp add: fill_env_def contention_body_def evict_if_full_def try_lock_def record_lock_def
      stress_lockofd_info_new_def lockofd_init_def LOCK_MAX_def lock_len_def lock_offset_def
      LOCK_FILE_SIZE_def log_event_def queue_of_def)

text \<open>
  Claim C9. On a state whose list is empty (\<open>head\<close> is \<^verbatim>\<open>NULL\<close>),
  \<^verbatim>\<open>stress_lockofd_unlock()\<close> returns 0 and \<^verbatim>\<open>stress_lockofd_info_head_remove()\<close> returns,
  both leaving the whole state (list, free pool, length, events: no unlock is issued) as it
  was. In every state the loop reaches from the empty list (the addresses \<^verbatim>\<open>calloc\<close>
  hands out being pairwise different), \<^verbatim>\<open>stress_lockofd_info_head_remove()\<close> decrements
  \<open>length'\<close> only when it is positive, so the counter never wraps below zero.
\<close>

theorem unlock_on_empty_list:
  "(head s = None \<longrightarrow>
      stress_lockofd_unlock x s = Some (0, s) \<and> stress_lockofd_info_head_remove s = Some s) \<and>
   (distinct (calloc_addrs es) \<and> stress_lockofd_contention es lockofd_init = Some (r, t) \<longrightarrow>
      (\<exists>t'. stress_lockofd_info_head_remove t = Some t' \<and>
         (if head t = None then length' t = 0 \<and> t' = t
          else 0 < unat (length' t) \<and> unat (length' t') = unat (length' t) - 1)))"
proof (rule conjI; rule impI)
  assume "head s = None"
  then show "stress_lockofd_unlock x s = Some (0, s) \<and> stress_lockofd_info_head_remove s = Some s"
    by (simp add: unlock_empty head_remove_empty)
next
  assume "distinct (calloc_addrs es) \<and> stress_lockofd_contention es lockofd_init = Some (r, t)"
  then obtain as fs rs where rep: "lockofd_rep t as fs rs" and len: "length as \<le> 1024"
    using reachable_rep[of es r t] by blast
  have small: "length as < 2 ^ 64" using len by simp
  have l: "unat (length' t) = length as" using rep_length_field[OF rep small] .
  show "\<exists>t'. stress_lockofd_info_head_remove t = Some t' \<and>
         (if head t = None then length' t = 0 \<and> t' = t
          else 0 < unat (length' t) \<and> unat (length' t') = unat (length' t) - 1)"
  proof (cases as)
    case Nil
    then have "head t = None" using rep_head_None[OF rep] by simp
    moreover have "length' t = 0" using rep Nil by (simp add: lockofd_rep_def lockofd_inv_def)
    ultimately show ?thesis by (simp add: head_remove_empty)
  next
    case (Cons a as0)
    with rep_lengths[OF rep] obtain q rs0 where rs: "rs = q # rs0" by (cases rs) auto
    from head_remove_ok[of t a as0 fs q rs0] rep Cons rs obtain t' where
      t': "stress_lockofd_info_head_remove t = Some t'" "lockofd_rep t' as0 (a # fs) rs0" by auto
    have "length as0 < 2 ^ 64" using small Cons by simp
    from rep_length_field[OF t'(2) this] have "unat (length' t') = length as0" .
    moreover obtain h where "head t = Some h" using rep_head_None[OF rep] Cons by auto
    ultimately show ?thesis using t'(1) l Cons by simp
  qed
qed

theorem unlock_on_empty_list_witness:
  "head lockofd_init = None \<and>
   stress_lockofd_unlock (- 1) lockofd_init = Some (0, lockofd_init) \<and>
   stress_lockofd_info_head_remove lockofd_init = Some lockofd_init \<and>
   distinct (calloc_addrs [fill_env 0]) \<and>
   (\<exists>t. stress_lockofd_contention (map fill_env [0..<1]) lockofd_init = Some (None, t) \<and>
      head t \<noteq> None \<and>
      (\<exists>t'. stress_lockofd_info_head_remove t = Some t' \<and> 0 < unat (length' t) \<and>
         unat (length' t') = unat (length' t) - 1))"
proof -
  have h0: "head lockofd_init = None" by (simp add: lockofd_init_def)
  have d: "distinct (calloc_addrs (map fill_env [0..<1]))" by (simp add: fill_env_def)
  from fill_ok[of 1] obtain t where
    t: "stress_lockofd_contention (map fill_env [0..<1]) lockofd_init = Some (None, t)"
    and rep: "lockofd_rep t [0..<1] [] (replicate 1 fill_rec)" by auto
  have ht: "head t \<noteq> None" using rep_head_None[OF rep] by simp
  from unlock_on_empty_list[of lockofd_init "- 1" "map fill_env [0..<1]" None t] h0 d t ht
  show ?thesis by (auto simp: fill_env_def)
qed

text \<open>
  Claim C10. In every state the loop reaches from the empty list (the addresses
  \<^verbatim>\<open>calloc\<close> hands out being pairwise different) and in which the list is not empty,
  \<^verbatim>\<open>stress_lockofd_unlock()\<close> has removed the head record and put it on the free pool
  before it calls \<^verbatim>\<open>fcntl\<close>: when the call fails the function returns -1, when it succeeds
  it returns 0, and in both cases the list, the free pool, the length and the heap are those
  that \<^verbatim>\<open>stress_lockofd_info_head_remove()\<close> leaves; the two final states differ only in the
  failure message logged.
\<close>

theorem eviction_not_atomic:
  assumes "distinct (calloc_addrs es)"
    and "stress_lockofd_contention es lockofd_init = Some (r, s)"
    and "head s \<noteq> None" and "bad < 0" and "0 \<le> good"
  shows "\<exists>s1 sb sg q qs. stress_lockofd_info_head_remove s = Some s1 \<and>
           stress_lockofd_unlock bad s = Some (- 1, sb) \<and>
           stress_lockofd_unlock good s = Some (0, sg) \<and>
           list_state sb = list_state s1 \<and> list_state sg = list_state s1 \<and>
           queue_of s = Some (q # qs) \<and> queue_of sb = Some qs \<and> queue_of sg = Some qs \<and>
           events sg = events s @
             [Fcntl F_OFD_SETLK \<lparr>l_type = F_UNLCK, l_whence = SEEK_SET, l_start = fst q,
                l_len = snd q, l_pid = 0\<rparr>] \<and>
           events sb = events sg @ [Pr_fail_err ''F_SETLK'']"
proof -
  from reachable_rep[OF assms(1,2)] obtain as fs rs where
    rep: "lockofd_rep s as fs rs" and len: "length as \<le> 1024" by blast
  from assms(3) rep_head_None[OF rep] obtain a as0 where as: "as = a # as0" by (cases as) auto
  with rep_lengths[OF rep] obtain q qs where rs: "rs = q # qs" by (cases rs) auto
  have rep': "lockofd_rep s (a # as0) fs (q # qs)" using rep as rs by simp
  let ?f = "\<lparr>l_type = F_UNLCK, l_whence = SEEK_SET, l_start = fst q, l_len = snd q, l_pid = 0\<rparr>"
  from head_remove_ok[OF rep'] obtain s1 where
    s1: "stress_lockofd_info_head_remove s = Some s1" "lockofd_rep s1 as0 (a # fs) qs"
      "events s1 = events s" by blast
  have ub: "stress_lockofd_unlock bad s =
         Some (- 1, log_event (Pr_fail_err ''F_SETLK'') (log_event (Fcntl F_OFD_SETLK ?f) s1))"
    using unlock_ok[OF rep', of bad] s1(1) assms(4) by auto
  have ug: "stress_lockofd_unlock good s = Some (0, log_event (Fcntl F_OFD_SETLK ?f) s1)"
    using unlock_ok[OF rep', of good] s1(1) assms(5) by auto
  have small: "length as < 2 ^ 64" "length as0 < 2 ^ 64" using len as by simp_all
  have q: "queue_of s = Some (q # qs)" using rep_queue_of[OF rep small(1)] rs by simp
  have q1: "queue_of s1 = Some qs" using rep_queue_of[OF s1(2) small(2)] .
  let ?sg = "log_event (Fcntl F_OFD_SETLK ?f) s1"
  let ?sb = "log_event (Pr_fail_err ''F_SETLK'') ?sg"
  have lg: "list_state ?sg = list_state s1" and lb: "list_state ?sb = list_state s1" by simp_all
  have qg: "queue_of ?sg = Some qs" using q1 list_state_queue_of[OF lg] by simp
  have qb: "queue_of ?sb = Some qs" using q1 list_state_queue_of[OF lb] by simp
  have eg: "events ?sg = events s @ [Fcntl F_OFD_SETLK ?f]" using s1(3) by simp
  have eb: "events ?sb = events ?sg @ [Pr_fail_err ''F_SETLK'']" by simp
  from s1(1) ub ug lb lg q qb qg eg eb show ?thesis by blast
qed

theorem eviction_not_atomic_witness:
  "distinct (calloc_addrs (map fill_env [0..<1])) \<and> (- 1 :: int) < 0 \<and> (0 :: int) \<le> 0 \<and>
   (\<exists>s. stress_lockofd_contention (map fill_env [0..<1]) lockofd_init = Some (None, s) \<and>
      head s \<noteq> None \<and>
      (\<exists>sb sg. stress_lockofd_unlock (- 1) s = Some (- 1, sb) \<and>
         stress_lockofd_unlock 0 s = Some (0, sg) \<and> list_state sb = list_state sg \<and>
         queue_of sb = Some [] \<and> queue_of sg = Some []))"
proof -
  have d: "distinct (calloc_addrs (map fill_env [0..<1]))" by (simp add: fill_env_def)
  from fill_ok[of 1] obtain s where
    s: "stress_lockofd_contention (map fill_env [0..<1]) lockofd_init = Some (None, s)"
    and rep: "lockofd_rep s [0..<1] [] (replicate 1 fill_rec)" by auto
  have hs: "head s \<noteq> None" using rep_head_None[OF rep] by simp
  have q: "queue_of s = Some [fill_rec]" using rep_queue_of[OF rep] by simp
  from eviction_not_atomic[OF d s hs, of "- 1" 0] q d s hs show ?thesis by auto
qed

section \<open>Properties of the membarrier stressor\<close>

subsection \<open>The three loops over the bits of a word\<close>

lemma bit_index_nonzero: "k < 32 \<Longrightarrow> (push_bit k 1 :: 32 word) \<noteq> 0"
  by simp

lemma bit_index_top: "(push_bit 32 1 :: 32 word) = 0"
  by simp

lemma bit_index_next: "push_bit 1 (push_bit k 1 :: 32 word) = push_bit (Suc k) 1"
  by simp

lemma bit_index_test: "k < 32 \<Longrightarrow> ((push_bit k 1 :: 32 word) AND m \<noteq> 0) = bit m k"
  by (simp add: and.commute and_exp_eq_0_iff_not_bit)

lemma legal_sweep_from:
  "k \<le> 32 \<Longrightarrow>
   legal_sweep m (push_bit k 1) x =
     x\<lparr>info := (info x)\<lparr>count := count (info x) + real (length (filter (bit m) [k..<32]))\<rparr>,
       trace := trace x @
         map (\<lambda>b. Membarrier (push_bit b 1) 0 0) (filter (bit m) [k..<32])\<rparr>"
proof (induction "32 - k" arbitrary: k x)
  case 0
  then have "k = 32" by simp
  then show ?case by (simp add: legal_sweep.simps)
next
  case (Suc n)
  then have k: "k < 32" and ih: "32 - Suc k = n" "Suc k \<le> 32" by simp_all
  have up: "[k..<32] = k # [Suc k..<32]" using k by (simp add: upt_conv_Cons)
  show ?case
    apply (subst legal_sweep.simps)
    apply (simp only: bit_index_nonzero[OF k] if_False bit_index_next bit_index_test[OF k])
    apply (subst Suc.hyps(1)[OF ih(1)[symmetric] ih(2)])
    apply (subst up)+
    apply (simp add: count_up_def shim_membarrier_def algebra_simps)
    done
qed

lemma illegal_args_sweep_from:
  "k \<le> 32 \<Longrightarrow>
   illegal_args_sweep m (push_bit k 1) x =
     x\<lparr>trace := trace x @
         concat (map (\<lambda>b. [Membarrier (push_bit b 1) (NOT 0) 0,
                            Membarrier (push_bit b 1) 0 INT_MAX])
               (filter (bit m) [k..<32]))\<rparr>"
proof (induction "32 - k" arbitrary: k x)
  case 0
  then have "k = 32" by simp
  then show ?case by (simp add: illegal_args_sweep.simps)
next
  case (Suc n)
  then have k: "k < 32" and ih: "32 - Suc k = n" "Suc k \<le> 32" by simp_all
  have up: "[k..<32] = k # [Suc k..<32]" using k by (simp add: upt_conv_Cons)
  show ?case
    apply (subst illegal_args_sweep.simps)
    apply (simp only: bit_index_nonzero[OF k] if_False bit_index_next bit_index_test[OF k])
    apply (subst Suc.hyps(1)[OF ih(1)[symmetric] ih(2)])
    apply (subst up)+
    apply (simp add: shim_membarrier_def)
    done
qed

lemma illegal_cmd_probe_from:
  "k \<le> 32 \<Longrightarrow>
   illegal_cmd_probe m (push_bit k 1) x =
     (case find (\<lambda>b. \<not> bit m b) [k..<32] of
        None \<Rightarrow> x
      | Some b \<Rightarrow> shim_membarrier (push_bit b 1) 0 0 x)"
proof (induction "32 - k" arbitrary: k x)
  case 0
  then have "k = 32" by simp
  then show ?case by (simp add: illegal_cmd_probe.simps)
next
  case (Suc n)
  then have k: "k < 32" and ih: "32 - Suc k = n" "Suc k \<le> 32" by simp_all
  have up: "[k..<32] = k # [Suc k..<32]" using k by (simp add: upt_conv_Cons)
  have t: "((push_bit k 1 :: 32 word) AND m = 0) = (\<not> bit m k)"
    using bit_index_test[OF k, of m] by blast
  show ?case
    apply (subst illegal_cmd_probe.simps)
    apply (simp only: bit_index_nonzero[OF k] if_False bit_index_next t)
    apply (subst Suc.hyps(1)[OF ih(1)[symmetric] ih(2)])
    apply (subst up)
    apply simp
    done
qed

lemma one_is_bit_index_0: "(1 :: 32 word) = push_bit 0 1"
  by simp

lemma legal_sweep_all:
  "legal_sweep m 1 x =
     x\<lparr>info := (info x)\<lparr>count := count (info x) + real (popcount m)\<rparr>,
       trace := trace x @ legal_calls m\<rparr>"
  by (subst one_is_bit_index_0, subst legal_sweep_from) (simp_all add: popcount_def legal_calls_def)

lemma illegal_args_sweep_all:
  "illegal_args_sweep m 1 x = x\<lparr>trace := trace x @ illegal_arg_calls m\<rparr>"
  by (subst one_is_bit_index_0, subst illegal_args_sweep_from) (simp_all add: illegal_arg_calls_def)

lemma illegal_cmd_probe_all:
  "illegal_cmd_probe m 1 x =
     (case lowest_unset m of None \<Rightarrow> x | Some b \<Rightarrow> shim_membarrier (push_bit b 1) 0 0 x)"
  by (subst one_is_bit_index_0, subst illegal_cmd_probe_from) (simp_all add: lowest_unset_def)

lemma popcount_card: "popcount m = card {n. bit m n}"
proof -
  have "{n. bit m n} = set (filter (bit m) [0..<32])"
    using bit_imp_le_length[of m] by auto
  then have "card {n. bit m n} = card (set (filter (bit m) [0..<32]))" by (rule arg_cong)
  also have "\<dots> = length (filter (bit m) [0..<32])" by (rule distinct_card) simp
  finally show ?thesis by (simp only: popcount_def)
qed

lemma lowest_unset_Some:
  "lowest_unset m = Some b \<longleftrightarrow> b < 32 \<and> \<not> bit m b \<and> (\<forall>j<b. bit m j)"
proof -
  have "lowest_unset m = Some b \<longleftrightarrow>
      (\<exists>i<length [0..<32::nat]. \<not> bit m ([0..<32] ! i) \<and> b = [0..<32] ! i \<and>
         (\<forall>j<i. \<not> \<not> bit m ([0..<32] ! j)))"
    unfolding lowest_unset_def by (rule find_Some_iff)
  also have "\<dots> \<longleftrightarrow> b < 32 \<and> \<not> bit m b \<and> (\<forall>j<b. bit m j)"
    by auto
  finally show ?thesis .
qed

lemma lowest_unset_nonneg:
  assumes "0 \<le> sint (m :: 32 word)"
  shows "\<exists>b. lowest_unset m = Some b"
proof -
  have "bit m (LENGTH(32) - Suc 0) \<longleftrightarrow> sint m < 0" by (rule bit_last_iff)
  then have "\<not> bit m 31" using assms by simp
  then have "\<exists>x \<in> set [0..<32::nat]. \<not> bit m x" by auto
  then show ?thesis unfolding lowest_unset_def by (cases "find (\<lambda>b. \<not> bit m b) [0..<32]") (auto simp: find_None_iff)
qed

subsection \<open>A cycle, the coordinator and the stressor\<close>

lemma exercise_fail:
  "sint (query_result e) < 0 \<Longrightarrow>
   stress_membarrier_exercise e x =
     (- 1, x\<lparr>trace := trace x @ [Membarrier MEMBARRIER_CMD_QUERY 0 0, Pr_fail]\<rparr>)"
  by (simp add: stress_membarrier_exercise_def shim_membarrier_def)

lemma exercise_ok:
  assumes "0 \<le> sint (query_result e)"
  shows "stress_membarrier_exercise e x =
     (0, \<lparr>info = (info x)\<lparr>duration := duration (info x) + (time_end e - time_start e),
                  count := count (info x) + real (popcount (query_result e))\<rparr>,
          trace = trace x @ [Membarrier MEMBARRIER_CMD_QUERY 0 0] @
            legal_calls (query_result e) @ illegal_arg_calls (query_result e) @
            (case lowest_unset (query_result e) of
               None \<Rightarrow> []
             | Some b \<Rightarrow> [Membarrier (push_bit b 1) 0 0])\<rparr>)"
proof -
  have "\<not> sint (query_result e) < 0" using assms by simp
  then show ?thesis
    by (simp add: stress_membarrier_exercise_def Let_def legal_sweep_all illegal_args_sweep_all
        illegal_cmd_probe_all shim_membarrier_def split: option.split)
qed

lemma set_bits_6: "filter (bit (6 :: 32 word)) [0..<32] = [1, 2]"
  by code_simp

lemma unset_bits_6: "find (\<lambda>b. \<not> bit (6 :: 32 word) b) [0..<32] = Some 0"
  by code_simp


lemma exercise_trace_grows:
  "\<exists>evs. trace (snd (stress_membarrier_exercise e x)) = trace x @ evs \<and>
         (\<forall>i. Pthread_create i \<notin> set evs) \<and> (\<forall>r. Stress_metrics_set r \<notin> set evs)"
proof (cases "sint (query_result e) < 0")
  case True
  then show ?thesis by (simp add: exercise_fail)
next
  case False
  then have "0 \<le> sint (query_result e)" by simp
  from exercise_ok[OF this] show ?thesis
    by (auto simp: legal_calls_def illegal_arg_calls_def split: option.splits)
qed

lemma coordinator_trace_grows:
  "coordinator_loop es x = Some y \<Longrightarrow>
   \<exists>evs. trace y = trace x @ evs \<and> (\<forall>i. Pthread_create i \<notin> set evs) \<and>
         (\<forall>r. Stress_metrics_set r \<notin> set evs)"
proof (induction es arbitrary: x)
  case Nil
  then show ?case by simp
next
  case (Cons e es)
  obtain rc x1 where ex: "stress_membarrier_exercise e x = (rc, x1)" by (cases "stress_membarrier_exercise e x")
  from exercise_trace_grows[of e x] ex obtain evs1 where
    e1: "trace x1 = trace x @ evs1" "\<forall>i. Pthread_create i \<notin> set evs1"
      "\<forall>r. Stress_metrics_set r \<notin> set evs1" by auto
  let ?x2 = "if rc < 0 then x1\<lparr>trace := trace x1 @ [Pr_fail]\<rparr> else x1"
  let ?x3 = "?x2\<lparr>trace := trace ?x2 @ [Mb_inc_counter]\<rparr>"
  have e3: "\<exists>evs. trace ?x3 = trace x @ evs \<and> (\<forall>i. Pthread_create i \<notin> set evs) \<and>
         (\<forall>r. Stress_metrics_set r \<notin> set evs)"
    using e1 by auto
  show ?case
  proof (cases "keep_going e")
    case False
    with Cons.prems ex have "y = ?x3" by (simp add: Let_def)
    with e3 show ?thesis by simp
  next
    case True
    with Cons.prems ex have "coordinator_loop es ?x3 = Some y" by (simp add: Let_def)
    from Cons.IH[OF this] obtain evs' where
      y: "trace y = trace ?x3 @ evs'" "\<forall>i. Pthread_create i \<notin> set evs'"
      "\<forall>r. Stress_metrics_set r \<notin> set evs'" by blast
    from e3 obtain evs3 where
      x3: "trace ?x3 = trace x @ evs3" "\<forall>i. Pthread_create i \<notin> set evs3"
      "\<forall>r. Stress_metrics_set r \<notin> set evs3" by blast
    have "trace y = trace x @ (evs3 @ evs')" using y(1) x3(1) by simp
    moreover have "\<forall>i. Pthread_create i \<notin> set (evs3 @ evs')" using y(2) x3(2) by simp
    moreover have "\<forall>r. Stress_metrics_set r \<notin> set (evs3 @ evs')" using y(3) x3(3) by simp
    ultimately show ?thesis by blast
  qed
qed

lemma membarrier_skip_enosys:
  "sint (first_query env) < 0 \<Longrightarrow> first_errno env = ENOSYS \<Longrightarrow>
   stress_membarrier env =
     (Some EXIT_NOT_IMPLEMENTED,
      Membarrier MEMBARRIER_CMD_QUERY 0 0 # (if instance_no env = 0 then [Pr_inf] else []))"
  by (simp add: stress_membarrier_def)

lemma membarrier_fail:
  "sint (first_query env) < 0 \<Longrightarrow> first_errno env \<noteq> ENOSYS \<Longrightarrow>
   stress_membarrier env = (Some EXIT_FAILURE, [Membarrier MEMBARRIER_CMD_QUERY 0 0, Pr_fail])"
  by (simp add: stress_membarrier_def)

lemma membarrier_skip_shared:
  "0 \<le> sint (first_query env) \<Longrightarrow> first_query env AND MEMBARRIER_CMD_SHARED = 0 \<Longrightarrow>
   stress_membarrier env = (Some EXIT_NOT_IMPLEMENTED, [Membarrier MEMBARRIER_CMD_QUERY 0 0, Pr_inf])"
  by (simp add: stress_membarrier_def)

lemma membarrier_running:
  "0 \<le> sint (first_query env) \<Longrightarrow> first_query env AND MEMBARRIER_CMD_SHARED \<noteq> 0 \<Longrightarrow>
   coordinator_loop (cycles env) own_start = None \<Longrightarrow>
   stress_membarrier env =
     (None, Membarrier MEMBARRIER_CMD_QUERY 0 0 # map Pthread_create [0..<MAX_MEMBARRIER_THREADS])"
  by (simp add: stress_membarrier_def own_start_def Let_def)

lemma membarrier_done:
  "0 \<le> sint (first_query env) \<Longrightarrow> first_query env AND MEMBARRIER_CMD_SHARED \<noteq> 0 \<Longrightarrow>
   coordinator_loop (cycles env) own_start = Some x \<Longrightarrow>
   stress_membarrier env =
     (Some EXIT_SUCCESS,
      trace x @
      Stress_metrics_set
        (membarrier_rate (map (pool_slot env) [0..<MAX_MEMBARRIER_THREADS] @ [info x])) #
      map Pthread_join (filter (\<lambda>i. create_result env i = 0) [0..<MAX_MEMBARRIER_THREADS]))"
  by (simp add: stress_membarrier_def own_start_def Let_def)


lemma no_set_bits: "filter (bit (0 :: 32 word)) [0..<32] = []"
  by simp



section \<open>Claims about the membarrier stressor\<close>

text \<open>
  Claim C5 says that a cycle makes a second counted call, with the per-CPU flag, for every
  set bit of the mask, so that the counter grows by twice the number of set bits. The
  flag exists (the enumerator \<^verbatim>\<open>MEMBARRIER_CMD_FLAG_CPU\<close>), yet the flagged call is under
  \<^verbatim>\<open>#if defined(MEMBARRIER_CMD_FLAG_CPU)\<close>, which is false for an enumerator, and is not
  compiled. For the mask \<open>0b0110\<close> the first loop makes the two plain calls only and the
  counter grows by 2, the number of set bits, not by 4. (For every mask the loop makes the
  plain call once for each set bit, in increasing order, and for no other bit: lemma
  \<open>legal_sweep_all\<close>.)
\<close>

theorem counted_once_per_set_bit:
  "popcount 6 = 2 \<and>
   legal_sweep 6 1 \<lparr>info = \<lparr>pthread_ret = 0, duration = 0, count = 0\<rparr>, trace = []\<rparr> =
     \<lparr>info = \<lparr>pthread_ret = 0, duration = 0, count = 2\<rparr>,
      trace = [Membarrier 2 0 0, Membarrier 4 0 0]\<rparr> \<and>
   count (info (snd (stress_membarrier_exercise
       \<lparr>query_result = 6, time_start = 1, time_end = 3, keep_going = False\<rparr>
       \<lparr>info = \<lparr>pthread_ret = 0, duration = 0, count = 0\<rparr>, trace = []\<rparr>))) = 2"
proof -
  have ok: "0 \<le> sint (query_result \<lparr>query_result = 6, time_start = 1, time_end = 3, keep_going = False\<rparr>)"
    by simp
  show ?thesis
    by (simp add: legal_sweep_all exercise_ok[OF ok] popcount_def legal_calls_def set_bits_6)
qed

text \<open>
  Claim C6. The third loop of a cycle issues at most one call: none when all 32 bits of the
  mask are set, and otherwise one call whose command is the lowest bit that is not set in
  the mask, with zero flags and target; it leaves the metrics as they are. In a cycle whose
  query succeeds (so that bit 31 is not set) this probe is the last call of the cycle, and
  the metrics after the cycle are those after the timed loop: the count of the legal calls
  and the duration of the timed loop only.
\<close>

theorem illegal_probe_lowest_unset:
  "illegal_cmd_probe m 1 x =
     (case lowest_unset m of
        None \<Rightarrow> x
      | Some b \<Rightarrow> x\<lparr>trace := trace x @ [Membarrier (push_bit b 1) 0 0]\<rparr>) \<and>
   info (illegal_cmd_probe m 1 x) = info x \<and>
   (lowest_unset m = Some b \<longleftrightarrow> b < 32 \<and> \<not> bit m b \<and> (\<forall>j<b. bit m j)) \<and>
   (lowest_unset m = None \<longleftrightarrow> (\<forall>j<32. bit m j)) \<and>
   (0 \<le> sint (query_result e) \<longrightarrow>
      (\<exists>p. lowest_unset (query_result e) = Some p \<and>
         trace (snd (stress_membarrier_exercise e x)) =
           trace x @ [Membarrier MEMBARRIER_CMD_QUERY 0 0] @
             legal_calls (query_result e) @ illegal_arg_calls (query_result e) @
             [Membarrier (push_bit p 1) 0 0] \<and>
         info (snd (stress_membarrier_exercise e x)) =
           (info x)\<lparr>duration := duration (info x) + (time_end e - time_start e),
                     count := count (info x) + real (popcount (query_result e))\<rparr>))"
proof -
  have a: "illegal_cmd_probe m 1 x =
     (case lowest_unset m of
        None \<Rightarrow> x
      | Some b \<Rightarrow> x\<lparr>trace := trace x @ [Membarrier (push_bit b 1) 0 0]\<rparr>)"
    by (simp add: illegal_cmd_probe_all shim_membarrier_def split: option.split)
  have b: "info (illegal_cmd_probe m 1 x) = info x"
    unfolding a by (simp split: option.split)
  have c: "lowest_unset m = None \<longleftrightarrow> (\<forall>j<32. bit m j)"
    by (auto simp: lowest_unset_def find_None_iff)
  have d: "0 \<le> sint (query_result e) \<longrightarrow>
      (\<exists>p. lowest_unset (query_result e) = Some p \<and>
         trace (snd (stress_membarrier_exercise e x)) =
           trace x @ [Membarrier MEMBARRIER_CMD_QUERY 0 0] @
             legal_calls (query_result e) @ illegal_arg_calls (query_result e) @
             [Membarrier (push_bit p 1) 0 0] \<and>
         info (snd (stress_membarrier_exercise e x)) =
           (info x)\<lparr>duration := duration (info x) + (time_end e - time_start e),
                     count := count (info x) + real (popcount (query_result e))\<rparr>)"
  proof
    assume ok: "0 \<le> sint (query_result e)"
    from lowest_unset_nonneg[OF ok] obtain p where p: "lowest_unset (query_result e) = Some p" ..
    show "\<exists>p. lowest_unset (query_result e) = Some p \<and>
         trace (snd (stress_membarrier_exercise e x)) =
           trace x @ [Membarrier MEMBARRIER_CMD_QUERY 0 0] @
             legal_calls (query_result e) @ illegal_arg_calls (query_result e) @
             [Membarrier (push_bit p 1) 0 0] \<and>
         info (snd (stress_membarrier_exercise e x)) =
           (info x)\<lparr>duration := duration (info x) + (time_end e - time_start e),
                     count := count (info x) + real (popcount (query_result e))\<rparr>"
      using p by (simp add: exercise_ok[OF ok])
  qed
  from a b c d lowest_unset_Some[of m b] show ?thesis by blast
qed

theorem illegal_probe_lowest_unset_witness:
  "lowest_unset 6 = Some 0 \<and> \<not> bit (6 :: 32 word) 0 \<and>
   illegal_cmd_probe 6 1 \<lparr>info = \<lparr>pthread_ret = 0, duration = 0, count = 0\<rparr>, trace = []\<rparr> =
     \<lparr>info = \<lparr>pthread_ret = 0, duration = 0, count = 0\<rparr>, trace = [Membarrier 1 0 0]\<rparr> \<and>
   0 \<le> sint (query_result \<lparr>query_result = 6, time_start = 1, time_end = 3, keep_going = False\<rparr>) \<and>
   snd (stress_membarrier_exercise
          \<lparr>query_result = 6, time_start = 1, time_end = 3, keep_going = False\<rparr>
          \<lparr>info = \<lparr>pthread_ret = 0, duration = 0, count = 0\<rparr>, trace = []\<rparr>) =
     \<lparr>info = \<lparr>pthread_ret = 0, duration = 2, count = 2\<rparr>,
      trace = [Membarrier 0 0 0,
               Membarrier 2 0 0, Membarrier 4 0 0,
               Membarrier 2 (- 1) 0, Membarrier 2 0 0x7fffffff,
               Membarrier 4 (- 1) 0, Membarrier 4 0 0x7fffffff,
               Membarrier 1 0 0]\<rparr>"
proof -
  have l: "lowest_unset 6 = Some 0" unfolding lowest_unset_def by (rule unset_bits_6)
  have ok: "0 \<le> sint (query_result \<lparr>query_result = 6, time_start = 1, time_end = 3, keep_going = False\<rparr>)"
    by simp
  from illegal_probe_lowest_unset [of 6
      "\<lparr>info = \<lparr>pthread_ret = 0, duration = 0, count = 0\<rparr>, trace = []\<rparr>" 0
      "\<lparr>query_result = 6, time_start = 1, time_end = 3, keep_going = False\<rparr>"] l ok
  show ?thesis
    by (auto simp: popcount_def legal_calls_def illegal_arg_calls_def set_bits_6
        MEMBARRIER_CMD_QUERY_def INT_MAX_def
        intro!: exerciser.equality)
qed



text \<open>
  Claim C8. \<^verbatim>\<open>stress_membarrier()\<close> returns \<^verbatim>\<open>EXIT_NOT_IMPLEMENTED\<close> exactly when the
  first query fails with \<^verbatim>\<open>ENOSYS\<close> or succeeds with a mask without
  \<^verbatim>\<open>MEMBARRIER_CMD_SHARED\<close>; when the query fails with another error it returns
  \<^verbatim>\<open>EXIT_FAILURE\<close>; and it calls \<^verbatim>\<open>pthread_create\<close> exactly when the query succeeds with
  \<^verbatim>\<open>MEMBARRIER_CMD_SHARED\<close> in the mask.
\<close>

theorem skip_fail_or_run:
  "(fst (stress_membarrier env) = Some EXIT_NOT_IMPLEMENTED \<longleftrightarrow>
      sint (first_query env) < 0 \<and> first_errno env = ENOSYS \<or>
      0 \<le> sint (first_query env) \<and> first_query env AND MEMBARRIER_CMD_SHARED = 0) \<and>
   (sint (first_query env) < 0 \<and> first_errno env \<noteq> ENOSYS \<longrightarrow>
      fst (stress_membarrier env) = Some EXIT_FAILURE) \<and>
   ((\<exists>i. Pthread_create i \<in> set (snd (stress_membarrier env))) \<longleftrightarrow>
      0 \<le> sint (first_query env) \<and> first_query env AND MEMBARRIER_CMD_SHARED \<noteq> 0)"
proof (cases "sint (first_query env) < 0")
  case True
  then show ?thesis
    by (cases "first_errno env = ENOSYS") (simp_all add: membarrier_skip_enosys membarrier_fail)
next
  case False
  then have ok: "0 \<le> sint (first_query env)" by simp
  show ?thesis
  proof (cases "first_query env AND MEMBARRIER_CMD_SHARED = 0")
    case True
    with ok False show ?thesis by (simp add: membarrier_skip_shared)
  next
    case sh: False
    have c0: "Pthread_create 0 \<in> set (map Pthread_create [0..<MAX_MEMBARRIER_THREADS])"
      by (simp add: MAX_MEMBARRIER_THREADS_def)
    show ?thesis
    proof (cases "coordinator_loop (cycles env) own_start")
      case None
      from membarrier_running[OF ok sh None] c0 ok sh False show ?thesis by auto
    next
      case (Some x)
      from coordinator_trace_grows[OF Some] obtain evs where
        "trace x = trace own_start @ evs" by blast
      then have "Pthread_create 0 \<in> set (trace x)" using c0 by (simp add: own_start_def)
      with membarrier_done[OF ok sh Some] ok sh False show ?thesis by auto
    qed
  qed
qed

theorem skip_fail_or_run_witness:
  "sint (first_query \<lparr>first_query = - 1, first_errno = 22, instance_no = 0,
           create_result = (\<lambda>i. 0), pool_metrics = (\<lambda>i. (0, 0)), cycles = []\<rparr>) < 0 \<and>
   first_errno \<lparr>first_query = - 1, first_errno = 22, instance_no = 0,
           create_result = (\<lambda>i. 0), pool_metrics = (\<lambda>i. (0, 0)), cycles = []\<rparr> \<noteq> ENOSYS \<and>
   fst (stress_membarrier \<lparr>first_query = - 1, first_errno = 22, instance_no = 0,
           create_result = (\<lambda>i. 0), pool_metrics = (\<lambda>i. (0, 0)), cycles = []\<rparr>) =
     Some EXIT_FAILURE"
  using skip_fail_or_run [of "\<lparr>first_query = - 1, first_errno = 22, instance_no = 0,
           create_result = (\<lambda>i. 0), pool_metrics = (\<lambda>i. (0, 0)), cycles = []\<rparr>"]
  by (simp add: ENOSYS_def)

end
